theory Spec2Isabelle
  imports Complex_Main "HOL-Library.Word" "HOL-Library.Multiset"
begin

section \<open>Universal compaction picker: data model\<close>

text \<open>
  A shallow embedding of \<^verbatim>\<open>db/compaction_picker_universal.cc\<close>.
  Unsigned 64-bit quantities (\<^verbatim>\<open>uint64_t\<close>, \<^verbatim>\<open>size_t\<close>) that take part in
  arithmetic are \<open>64 word\<close>, \<^verbatim>\<open>unsigned int\<close> is \<open>32 word\<close>; both wrap around as
  in C++. Indices into vectors and level numbers are \<open>nat\<close>. Internal keys are an
  arbitrary linear order \<open>'k\<close>: \<^verbatim>\<open>icmp_->Compare(a, b) > 0\<close> is \<open>b < a\<close>.
\<close>

type_synonym uint64 = "64 word"
type_synonym uint32 = "32 word"

datatype SstPurpose = kEssenceSst | kMapSst | kLinkSst

datatype CompactionReason =
    kUnknown
  | kUniversalSizeAmplification
  | kUniversalSizeRatio
  | kUniversalSortedRunNum
  | kFilesMarkedForCompaction
  | kTrivialMoveLevel
  | kCompositeAmplification

datatype CompactionStopStyle = kCompactionStopStyleSimilarSize | kCompactionStopStyleTotalSize

text \<open>
  \<^verbatim>\<open>FileMetaData\<close>: the fields the picker reads. \<open>fd_number\<close>, \<open>fd_file_size\<close> and
  \<open>fd_path_id\<close> are \<^verbatim>\<open>fd.GetNumber()\<close>, \<^verbatim>\<open>fd.GetFileSize()\<close> and \<^verbatim>\<open>fd.GetPathId()\<close>.
  The sequence numbers are read by debug assertions only and are left out.
\<close>

record 'k FileMetaData =
  fd_number :: nat
  fd_file_size :: uint64
  fd_path_id :: nat
  compensated_file_size :: uint64
  smallest :: 'k
  largest :: 'k
  being_compacted :: bool
  marked_for_compaction :: bool
  sst_purpose :: SstPurpose
  sst_depend :: "nat list"

text \<open>
  \<^verbatim>\<open>SortedRun\<close>; the fields carry the prefix \<open>sr_\<close> because \<^verbatim>\<open>FileMetaData\<close> has
  fields of the same names. \<open>sr_file\<close> is \<open>None\<close> for the null pointer.
\<close>

record 'k SortedRun =
  sr_level :: nat
  sr_file :: "'k FileMetaData option"
  sr_size :: uint64
  sr_compensated_file_size :: uint64
  sr_being_compacted :: bool
  sr_wait_reduce :: bool

record 'k CompactionInputFiles =
  level :: nat
  files :: "'k FileMetaData list"

text \<open>
  \<^verbatim>\<open>RangeStorage\<close>, a key range for a partial compaction, and \<^verbatim>\<open>MapSstElement\<close>
  with its \<^verbatim>\<open>LinkTarget\<close>, an entry of a map file. The structs are declared outside
  this file; the records hold the fields that this file reads and writes. The fields
  of \<^verbatim>\<open>RangeStorage\<close> and \<^verbatim>\<open>LinkTarget\<close> carry a prefix, as other records have
  fields of the same names; those of \<^verbatim>\<open>MapSstElement\<close> (\<^verbatim>\<open>smallest_key_\<close>,
  \<^verbatim>\<open>largest_key_\<close>, \<^verbatim>\<open>include_smallest_\<close>, \<^verbatim>\<open>include_largest_\<close>, \<^verbatim>\<open>link_\<close>) carry the
  prefix \<open>me_\<close> in place of the underscore at their end. Keys are byte strings in the code, internal keys as well as user keys; the model
  has the one type \<open>'k\<close> for them, ordered by the internal-key comparator.
\<close>

record 'k RangeStorage =
  rs_start :: 'k
  rs_limit :: 'k
  rs_include_start :: bool
  rs_include_limit :: bool

record LinkTarget =
  link_file_number :: nat
  link_size :: uint64

record 'k MapSstElement =
  me_smallest_key :: 'k
  me_largest_key :: 'k
  me_include_smallest :: bool
  me_include_largest :: bool
  me_link :: "LinkTarget list"

text \<open>
  \<^verbatim>\<open>Compaction\<close>, as built from \<^verbatim>\<open>CompactionParams\<close>. The score, the target file
  size and the compression settings are computed by code outside this file (or in
  floating point) and do not influence which files are picked; they are left out of
  the record. A field that a strategy does not set has the value of a new
  \<^verbatim>\<open>CompactionParams\<close>, taken to be zero, false, empty, \<^verbatim>\<open>kEssenceSst\<close> and
  \<^verbatim>\<open>kUnknown\<close>.
\<close>

record 'k Compaction =
  inputs :: "'k CompactionInputFiles list"
  output_level :: int
  output_path_id :: nat
  max_subcompactions :: nat
  manual_compaction :: bool
  partial_compaction :: bool
  compaction_purpose :: SstPurpose
  compaction_reason :: CompactionReason
  is_trivial_move :: bool
  input_range :: "'k RangeStorage list"

text \<open>
  \<^verbatim>\<open>VersionStorageInfo\<close>: the per-level file lists (level 0 newest first), the list
  returned by \<^verbatim>\<open>FilesMarkedForCompaction()\<close>, the levels for which
  \<^verbatim>\<open>has_space_amplification(level)\<close> holds, and the map \<^verbatim>\<open>depend_files()\<close>.
\<close>

record 'k VersionStorageInfo =
  level_files :: "'k FileMetaData list list"
  FilesMarkedForCompaction :: "(nat \<times> 'k FileMetaData) list"
  space_amplification_levels :: "nat list"
  depend_files :: "nat \<Rightarrow> 'k FileMetaData option"

definition num_levels :: "'k VersionStorageInfo \<Rightarrow> nat" where
  "num_levels vstorage = length (level_files vstorage)"

definition LevelFiles :: "'k VersionStorageInfo \<Rightarrow> nat \<Rightarrow> 'k FileMetaData list" where
  "LevelFiles vstorage l = (if l < num_levels vstorage then level_files vstorage ! l else [])"

definition NumLevelFiles :: "'k VersionStorageInfo \<Rightarrow> nat \<Rightarrow> nat" where
  "NumLevelFiles vstorage l = length (LevelFiles vstorage l)"

definition has_space_amplification :: "'k VersionStorageInfo \<Rightarrow> bool" where
  "has_space_amplification vstorage = (space_amplification_levels vstorage \<noteq> [])"

definition has_space_amplification_at :: "'k VersionStorageInfo \<Rightarrow> nat \<Rightarrow> bool" where
  "has_space_amplification_at vstorage l = (l \<in> set (space_amplification_levels vstorage))"

text \<open>
  The options read by the picker: \<^verbatim>\<open>ImmutableCFOptions\<close>, \<^verbatim>\<open>MutableCFOptions\<close> and
  \<^verbatim>\<open>compaction_options_universal\<close> in one record. \<open>cf_paths\<close> holds the target sizes.
  \<open>table_cache\<close> tells whether \<^verbatim>\<open>table_cache_\<close> is non-null.
\<close>

record Options =
  ioptions_num_levels :: int
  allow_ingest_behind :: bool
  cf_paths :: "uint64 list"
  ioptions_max_subcompactions :: nat
  level0_file_num_compaction_trigger :: int
  enable_lazy_compaction :: bool
  write_buffer_size :: uint64
  size_ratio :: uint32
  min_merge_width :: uint32
  max_merge_width :: uint32
  max_size_amplification_percent :: uint32
  stop_style :: CompactionStopStyle
  allow_trivial_move :: bool
  table_cache :: bool
  max_compaction_bytes :: uint64

text \<open>
  Floating point. The code computes in \<^verbatim>\<open>double\<close>; the model takes the type \<open>'d\<close> of
  doubles and the primitive operations on it as a parameter, so that every result holds
  for whatever these operations return (rounding, infinities and NaN included).
\<close>

record 'd double_ops =
  d_of_nat :: "nat \<Rightarrow> 'd"
  d_add :: "'d \<Rightarrow> 'd \<Rightarrow> 'd"
  d_sub :: "'d \<Rightarrow> 'd \<Rightarrow> 'd"
  d_mul :: "'d \<Rightarrow> 'd \<Rightarrow> 'd"
  d_div :: "'d \<Rightarrow> 'd \<Rightarrow> 'd"
  d_pow :: "'d \<Rightarrow> 'd \<Rightarrow> 'd"
  d_abs :: "'d \<Rightarrow> 'd"
  d_less :: "'d \<Rightarrow> 'd \<Rightarrow> bool"
  d_le :: "'d \<Rightarrow> 'd \<Rightarrow> bool"

text \<open>The exact operations on the reals, used to evaluate the model on small inputs.\<close>

definition real_ops :: "real double_ops" where
  "real_ops = \<lparr> d_of_nat = real, d_add = (+), d_sub = (-), d_mul = (*), d_div = (/),
                d_pow = (powr), d_abs = abs, d_less = (<), d_le = (\<le>) \<rparr>"

subsection \<open>\<^verbatim>\<open>GetPathId\<close> (lines 663-695)\<close>

text \<open>
  \<open>paths\<close> is the list of the \<^verbatim>\<open>target_size\<close> fields of \<^verbatim>\<open>ioptions.cf_paths\<close>.
  The loop variable \<^verbatim>\<open>p\<close> is an index below \<^verbatim>\<open>cf_paths.size()\<close>, kept as \<open>nat\<close>.
\<close>

function GetPathId_loop :: "uint64 list \<Rightarrow> uint64 \<Rightarrow> uint64 \<Rightarrow> nat \<Rightarrow> uint64 \<Rightarrow> nat" where
  "GetPathId_loop paths file_size future_size p accumulated_size =
     (if p < length paths - 1 then
        (let target_size = paths ! p in
         if target_size > file_size \<and>
            accumulated_size + (target_size - file_size) > future_size
         then p
         else GetPathId_loop paths file_size future_size (p + 1)
                (accumulated_size + target_size))
      else p)"
  by pat_completeness auto
termination
  by (relation "measure (\<lambda>(paths, fs, fut, p, acc). length paths - 1 - p)") auto

declare GetPathId_loop.simps [simp del]

text \<open>
  \<^verbatim>\<open>100 - size_ratio\<close> is computed in \<^verbatim>\<open>unsigned int\<close> and widened for the 64-bit
  product. The result is \<open>None\<close> where \<^verbatim>\<open>assert(!ioptions.cf_paths.empty())\<close> fails.
\<close>

definition GetPathId :: "uint64 list \<Rightarrow> uint32 \<Rightarrow> uint64 \<Rightarrow> nat option" where
  "GetPathId paths ratio file_size =
     (if paths = [] then None
      else Some (GetPathId_loop paths file_size
                   (file_size * ucast (100 - ratio) div 100) 0 0))"

text \<open>
  The test of the loop for path \<open>p\<close> in the arithmetic of the code: \<open>target_p > f\<close> and
  \<open>acc + (target_p - f) > future\<close>, where \<open>acc\<close> is the sum of the targets before \<open>p\<close>,
  sums, differences and the product wrap around at \<open>2^64\<close>, and \<^verbatim>\<open>100 - size_ratio\<close> wraps
  around at \<open>2^32\<close>. \<open>wrapped_first_fit\<close> is the first path among \<open>0 .. n-2\<close> that passes
  this test, and \<open>n-1\<close> when there is none.
\<close>

definition wrapped_path_fits :: "uint64 list \<Rightarrow> uint32 \<Rightarrow> uint64 \<Rightarrow> nat \<Rightarrow> bool" where
  "wrapped_path_fits paths ratio f p =
     (paths ! p > f \<and>
      sum_list (take p paths) + (paths ! p - f) > f * ucast (100 - ratio) div 100)"

definition wrapped_first_fit :: "uint64 list \<Rightarrow> uint32 \<Rightarrow> uint64 \<Rightarrow> nat" where
  "wrapped_first_fit paths ratio f =
     (if \<exists>p < length paths - 1. wrapped_path_fits paths ratio f p
      then (LEAST p. p < length paths - 1 \<and> wrapped_path_fits paths ratio f p)
      else length paths - 1)"

text \<open>
  The path allocator in the words of the specification, over the integers:
  \<open>future = f * (100 - size_ratio) / 100\<close>; walk the paths \<open>p = 0 .. n-2\<close>, with \<open>acc\<close> the
  sum of the targets before \<open>p\<close>; return the first \<open>p\<close> with \<open>target_p > f\<close> and
  \<open>acc + (target_p - f) > future\<close>, otherwise \<open>n-1\<close>. The quotient is rounded down; as the
  left side of the comparison is an integer, the comparison with the exact quotient has
  the same outcome (lemma \<open>spec_future_exact\<close>).
\<close>

definition spec_future :: "int \<Rightarrow> int \<Rightarrow> int" where
  "spec_future f ratio = f * (100 - ratio) div 100"

definition spec_path_fits :: "int list \<Rightarrow> int \<Rightarrow> int \<Rightarrow> nat \<Rightarrow> bool" where
  "spec_path_fits targets ratio f p =
     (targets ! p > f \<and>
      sum_list (take p targets) + (targets ! p - f) > spec_future f ratio)"

definition spec_GetPathId :: "int list \<Rightarrow> int \<Rightarrow> int \<Rightarrow> nat" where
  "spec_GetPathId targets ratio f =
     (case find (spec_path_fits targets ratio f) [0..<length targets - 1] of
        Some p \<Rightarrow> p
      | None \<Rightarrow> length targets - 1)"

subsection \<open>\<^verbatim>\<open>IsInputFilesNonOverlapping\<close> (lines 40-165)\<close>

text \<open>
  The accessors of \<^verbatim>\<open>Compaction\<close> used here: \<^verbatim>\<open>num_input_levels()\<close>,
  \<^verbatim>\<open>num_input_files(l)\<close>, \<^verbatim>\<open>input(l, i)\<close>, \<^verbatim>\<open>level(l)\<close> and \<^verbatim>\<open>start_level()\<close> (here \<open>input_file\<close>,
  \<open>input_level\<close> and \<open>compaction_start_level\<close>).
  Their argument \<open>l\<close> is an index into \<^verbatim>\<open>inputs\<close>, not a level of the tree.
\<close>

definition num_input_levels :: "'k Compaction \<Rightarrow> nat" where
  "num_input_levels c = length (inputs c)"

definition num_input_files :: "'k Compaction \<Rightarrow> nat \<Rightarrow> nat" where
  "num_input_files c l = (if l < length (inputs c) then length (files (inputs c ! l)) else 0)"

definition input_file :: "'k Compaction \<Rightarrow> nat \<Rightarrow> nat \<Rightarrow> 'k FileMetaData" where
  "input_file c l i = files (inputs c ! l) ! i"

definition input_level :: "'k Compaction \<Rightarrow> nat \<Rightarrow> nat" where
  "input_level c l = level (inputs c ! l)"

definition compaction_start_level :: "'k Compaction \<Rightarrow> nat" where
  "compaction_start_level c = (if inputs c = [] then 0 else level (inputs c ! 0))"

record 'k InputFileInfo =
  info_f :: "'k FileMetaData"
  info_level :: nat
  info_index :: nat

text \<open>
  \<^verbatim>\<open>SmallestKeyHeap\<close> is a \<^verbatim>\<open>std::priority_queue\<close> whose comparator orders by the
  smallest key, so that \<^verbatim>\<open>top()\<close> is an element with no strictly smaller one. The
  model keeps the elements in the order they were pushed; \<open>heap_top\<close> returns the first
  element whose smallest key is minimal.
\<close>

definition heap_push :: "'k InputFileInfo list \<Rightarrow> 'k InputFileInfo \<Rightarrow> 'k InputFileInfo list" where
  "heap_push q x = q @ [x]"

fun heap_min :: "('k::linorder) InputFileInfo \<Rightarrow> 'k InputFileInfo list \<Rightarrow> 'k InputFileInfo" where
  "heap_min best [] = best"
| "heap_min best (x # xs) =
     heap_min (if smallest (info_f x) < smallest (info_f best) then x else best) xs"

definition heap_top :: "('k::linorder) InputFileInfo list \<Rightarrow> 'k InputFileInfo" where
  "heap_top q = heap_min (hd q) (tl q)"

definition heap_pop :: "('k::linorder) InputFileInfo list \<Rightarrow> 'k InputFileInfo list" where
  "heap_pop q = remove1 (heap_top q) q"

text \<open>
  \<^verbatim>\<open>create_level_heap\<close>: all files of the first input level when it is level 0, the
  first file of every other non-empty input level.
\<close>

definition level_entries :: "'k Compaction \<Rightarrow> nat \<Rightarrow> 'k InputFileInfo list" where
  "level_entries c l =
     (if num_input_files c l \<noteq> 0 then
        (if l = 0 \<and> compaction_start_level c = 0 then
           map (\<lambda>i. \<lparr> info_f = input_file c 0 i, info_level = 0, info_index = i \<rparr>)
             [0..<num_input_files c 0]
         else [\<lparr> info_f = input_file c l 0, info_level = l, info_index = 0 \<rparr>])
      else [])"

definition create_level_heap :: "'k Compaction \<Rightarrow> 'k InputFileInfo list" where
  "create_level_heap c = concat (map (level_entries c) [0..<num_input_levels c])"

text \<open>
  Lines 151-162: after \<open>cur\<close> (\<^verbatim>\<open>curr\<close>) was popped, its successor in the same input level is
  pushed, unless the level is level 0 or \<open>cur\<close> is the last file. Every heap entry
  belongs to a non-empty input level, so \<^verbatim>\<open>num_input_files(..) - 1\<close> does not wrap
  and \<^verbatim>\<open>curr.index < n - 1\<close> is \<open>index + 1 < n\<close>.
\<close>

definition push_next ::
  "('k::linorder) Compaction \<Rightarrow> 'k InputFileInfo \<Rightarrow> 'k InputFileInfo list \<Rightarrow> 'k InputFileInfo list" where
  "push_next c cur q =
     (if input_level c (info_level cur) \<noteq> 0 \<and>
         info_index cur + 1 < num_input_files c (info_level cur)
      then heap_push q \<lparr> info_f = input_file c (info_level cur) (info_index cur + 1),
                         info_level = info_level cur,
                         info_index = info_index cur + 1 \<rparr>
      else q)"

text \<open>
  The \<^verbatim>\<open>while\<close> loop, lines 133-163. \<open>prev\<close> is \<open>None\<close> while \<^verbatim>\<open>first_iter\<close> is set.
  Each round removes one entry and adds at most one, further along in its level.
\<close>

function nonoverlapping_loop ::
  "('k::linorder) Compaction \<Rightarrow> 'k InputFileInfo list \<Rightarrow> 'k InputFileInfo option \<Rightarrow> bool" where
  "nonoverlapping_loop c q prev =
     (if q = [] then True
      else
        (let cur = heap_top q; q1 = heap_pop q in
         if (case prev of None \<Rightarrow> False
             | Some p \<Rightarrow> largest (info_f p) \<ge> smallest (info_f cur))
         then False
         else nonoverlapping_loop c (push_next c cur q1) (Some cur)))"
  by pat_completeness auto
termination
proof (relation "measure (\<lambda>(c, q, prev).
         sum_list (map (\<lambda>x. Suc (num_input_files c (info_level x) - Suc (info_index x))) q))")
  show "wf (measure (\<lambda>(c :: 'a Compaction, q, prev :: 'a InputFileInfo option).
         sum_list (map (\<lambda>x. Suc (num_input_files c (info_level x) - Suc (info_index x))) q)))"
    by simp
next
  fix c :: "'a Compaction" and q :: "'a InputFileInfo list" and prev :: "'a InputFileInfo option"
    and cur q1
  assume ne: "q \<noteq> []" and cur: "cur = heap_top q" and q1: "q1 = heap_pop q"
  define w where "w = (\<lambda>x :: 'a InputFileInfo.
    Suc (num_input_files c (info_level x) - Suc (info_index x)))"
  have min_in: "heap_min b xs \<in> set (b # xs)" for b and xs :: "'a InputFileInfo list"
    by (induction xs arbitrary: b) auto
  have "heap_top q \<in> set (hd q # tl q)"
    unfolding heap_top_def by (rule min_in)
  then have mem: "cur \<in> set q" using ne cur by simp
  have split: "sum_list (map w q) = w cur + sum_list (map w q1)"
    unfolding q1 heap_pop_def cur[symmetric] by (rule sum_list_map_remove1[OF mem])
  have "sum_list (map w (push_next c cur q1)) < w cur + sum_list (map w q1)"
    unfolding push_next_def heap_push_def w_def by auto
  then show "((c, push_next c cur q1, Some cur), (c, q, prev)) \<in> measure (\<lambda>(c, q, prev).
         sum_list (map (\<lambda>x. Suc (num_input_files c (info_level x) - Suc (info_index x))) q))"
    using split unfolding w_def by simp
qed

declare nonoverlapping_loop.simps [simp del]

definition IsInputFilesNonOverlapping :: "('k::linorder) Compaction \<Rightarrow> bool" where
  "IsInputFilesNonOverlapping c =
     (let q = create_level_heap c in
      if length q \<le> 1 then True else nonoverlapping_loop c q None)"








subsection \<open>Picker state and collaborators outside this file\<close>

text \<open>
  The in-flight compactions of the picker. The C++ members are sets of pointers; the
  model keeps them as lists.
\<close>

record 'k PickerState =
  compactions_in_progress :: "'k Compaction list"
  level0_compactions_in_progress :: "'k Compaction list"

text \<open>
  Functions of the base class \<^verbatim>\<open>CompactionPicker\<close>, of the table cache, of the
  comparators and of the map-element iterator are not part of this file. The model takes
  them as parameters, collected in one record. Out-parameters are returned; a \<^verbatim>\<open>bool\<close>
  failure is \<open>None\<close>.

  \<^item> \<open>GetSstReadAmp f\<close> stands for \<^verbatim>\<open>table_cache_->GetTableProperties\<close> followed by
    \<^verbatim>\<open>GetSstReadAmp\<close>, and is \<open>None\<close> when the status of the former is not OK.
  \<^item> \<open>MaxFileSizeForLevel opts level\<close> is the function of that name for the universal
    style; \<open>IsPrefaceRange e f\<close> is \<^verbatim>\<open>IsPrefaceRange\<close> on the range of the map element
    \<open>e\<close> and the file \<open>f\<close>; \<open>EstimateSize\<close> is the method of \<^verbatim>\<open>MapSstElement\<close>.
  \<^item> \<open>user_Compare\<close> is \<^verbatim>\<open>Compare\<close> of the user comparator, \<open>ExtractUserKey\<close> the
    function of that name; \<open>RangeStorage_new\<close> and \<open>MapSstElement_new\<close> are the values of
    a \<^verbatim>\<open>RangeStorage\<close> and of a \<^verbatim>\<open>MapSstElement\<close> right after their declaration.
  \<^item> An iterator is a value of the type \<open>'it\<close>. \<open>NewIterator f level\<close> opens the iterator
    of \<^verbatim>\<open>table_cache_->NewIterator\<close> on a file, \<open>NewMapElementIterator fs\<close> the one of
    \<^verbatim>\<open>NewMapElementIterator\<close> on the files of a level. \<open>it_status_ok\<close>, \<open>it_Valid\<close> and
    \<open>it_key\<close> read \<^verbatim>\<open>status().ok()\<close>, \<^verbatim>\<open>Valid()\<close> and \<^verbatim>\<open>key()\<close>; \<open>it_SeekToFirst\<close>,
    \<open>it_Seek\<close>, \<open>it_SeekForPrev\<close>, \<open>it_Next\<close> and \<open>it_Prev\<close> give the iterator after the
    call of that name. \<open>Decode it e\<close> is \<^verbatim>\<open>e.Decode(it->key(), it->value())\<close>: the
    \<^verbatim>\<open>bool\<close> it returns and the map element after the call.

  Nothing is assumed about these functions; in particular an iterator may stop being
  valid, with or without an OK status, after any call.
\<close>

record ('k, 'it) Collaborators =
  PickFilesMarkedForCompaction ::
    "'k PickerState \<Rightarrow> 'k VersionStorageInfo \<Rightarrow> nat \<times> 'k CompactionInputFiles"
  GetOverlappingL0Files ::
    "'k PickerState \<Rightarrow> 'k VersionStorageInfo \<Rightarrow> 'k CompactionInputFiles \<Rightarrow> int
       \<Rightarrow> 'k CompactionInputFiles option"
  SetupOtherInputs ::
    "'k PickerState \<Rightarrow> 'k VersionStorageInfo \<Rightarrow> 'k CompactionInputFiles
       \<Rightarrow> 'k CompactionInputFiles
       \<Rightarrow> ('k CompactionInputFiles \<times> 'k CompactionInputFiles) option"
  FilesRangeOverlapWithCompaction ::
    "'k PickerState \<Rightarrow> 'k CompactionInputFiles list \<Rightarrow> int \<Rightarrow> bool"
  AreFilesInCompaction :: "'k FileMetaData list \<Rightarrow> bool"
  GetSstReadAmp :: "'k FileMetaData \<Rightarrow> nat option"
  MaxFileSizeForLevel :: "Options \<Rightarrow> nat \<Rightarrow> uint64"
  IsPrefaceRange :: "'k MapSstElement \<Rightarrow> 'k FileMetaData \<Rightarrow> bool"
  EstimateSize :: "'k MapSstElement \<Rightarrow> uint64"
  user_Compare :: "'k \<Rightarrow> 'k \<Rightarrow> int"
  ExtractUserKey :: "'k \<Rightarrow> 'k"
  RangeStorage_new :: "'k RangeStorage"
  MapSstElement_new :: "'k MapSstElement"
  NewIterator :: "'k FileMetaData \<Rightarrow> nat \<Rightarrow> 'it"
  NewMapElementIterator :: "'k FileMetaData list \<Rightarrow> 'it"
  it_status_ok :: "'it \<Rightarrow> bool"
  it_Valid :: "'it \<Rightarrow> bool"
  it_key :: "'it \<Rightarrow> 'k"
  it_SeekToFirst :: "'it \<Rightarrow> 'it"
  it_Seek :: "'k \<Rightarrow> 'it \<Rightarrow> 'it"
  it_SeekForPrev :: "'k \<Rightarrow> 'it \<Rightarrow> 'it"
  it_Next :: "'it \<Rightarrow> 'it"
  it_Prev :: "'it \<Rightarrow> 'it"
  Decode :: "'it \<Rightarrow> 'k MapSstElement \<Rightarrow> bool \<times> 'k MapSstElement"

subsection \<open>Building the input lists of a plan\<close>

text \<open>
  \<^verbatim>\<open>std::vector<CompactionInputFiles> inputs(n)\<close> followed by
  \<^verbatim>\<open>inputs[i].level = start_level + i\<close>.
\<close>

definition new_inputs :: "nat \<Rightarrow> nat \<Rightarrow> 'k CompactionInputFiles list" where
  "new_inputs n start_level = map (\<lambda>i. \<lparr> level = start_level + i, files = [] \<rparr>) [0..<n]"

text \<open>
  \<^verbatim>\<open>inputs[i].files.push_back(..)\<close> for each file of \<open>fs\<close>. Every caller indexes
  within the vector when the sorted runs come from \<^verbatim>\<open>CalculateSortedRuns\<close>; outside
  the vector (undefined behaviour in C++) the model leaves the vector unchanged.
\<close>

definition push_files ::
  "'k CompactionInputFiles list \<Rightarrow> nat \<Rightarrow> 'k FileMetaData list \<Rightarrow> 'k CompactionInputFiles list" where
  "push_files ins i fs =
     (if i < length ins then ins[i := (ins ! i)\<lparr> files := files (ins ! i) @ fs \<rparr>] else ins)"

text \<open>
  The loop \<^verbatim>\<open>for (i = start_index; i < end; i++)\<close> that moves the picked sorted runs
  into the inputs: a level-0 run adds its file to \<^verbatim>\<open>inputs[0]\<close>, a deeper run adds all
  files of its level to \<^verbatim>\<open>inputs[level - start_level]\<close>.
\<close>

fun pick_runs ::
  "'k VersionStorageInfo \<Rightarrow> nat \<Rightarrow> 'k SortedRun list \<Rightarrow> 'k CompactionInputFiles list
     \<Rightarrow> 'k CompactionInputFiles list" where
  "pick_runs vstorage start_level [] ins = ins"
| "pick_runs vstorage start_level (picking_sr # rest) ins =
     pick_runs vstorage start_level rest
       (if sr_level picking_sr = 0 then
          (case sr_file picking_sr of
             Some f \<Rightarrow> push_files ins 0 [f]
           | None \<Rightarrow> ins)
        else push_files ins (sr_level picking_sr - start_level)
               (LevelFiles vstorage (sr_level picking_sr)))"

subsection \<open>\<^verbatim>\<open>PickCompactionToReduceSizeAmp\<close> (lines 991-1128)\<close>

text \<open>The first loop: skip the leading runs that are being compacted.\<close>

function SizeAmp_skip :: "'k SortedRun list \<Rightarrow> nat \<Rightarrow> nat option" where
  "SizeAmp_skip sorted_runs loop =
     (if loop < length sorted_runs - 1 then
        (if \<not> sr_being_compacted (sorted_runs ! loop) then Some loop
         else SizeAmp_skip sorted_runs (loop + 1))
      else None)"
  by pat_completeness auto
termination
  by (relation "measure (\<lambda>(sorted_runs, loop). length sorted_runs - 1 - loop)") auto

declare SizeAmp_skip.simps [simp del]

text \<open>The second loop: add up the candidates, or give up at a run being compacted.\<close>

function SizeAmp_accumulate ::
  "'k SortedRun list \<Rightarrow> nat \<Rightarrow> uint64 \<Rightarrow> nat \<Rightarrow> (uint64 \<times> nat) option" where
  "SizeAmp_accumulate sorted_runs loop candidate_size candidate_count =
     (if loop < length sorted_runs - 1 then
        (if sr_being_compacted (sorted_runs ! loop) then None
         else SizeAmp_accumulate sorted_runs (loop + 1)
                (candidate_size + sr_compensated_file_size (sorted_runs ! loop))
                (candidate_count + 1))
      else Some (candidate_size, candidate_count))"
  by pat_completeness auto
termination
  by (relation "measure (\<lambda>(sorted_runs, loop, cs, cc). length sorted_runs - 1 - loop)") auto

declare SizeAmp_accumulate.simps [simp del]

text \<open>
  The caller passes a non-empty vector (\<^verbatim>\<open>sorted_runs.back()\<close> is read first); the
  model returns \<open>None\<close> for the empty one. A failed assertion in \<open>GetPathId\<close> is \<open>None\<close> too.
\<close>

definition PickCompactionToReduceSizeAmp ::
  "Options \<Rightarrow> 'k VersionStorageInfo \<Rightarrow> 'k SortedRun list \<Rightarrow> 'k Compaction option" where
  "PickCompactionToReduceSizeAmp opts vstorage sorted_runs =
     (let ratio = (ucast (max_size_amplification_percent opts) :: uint64) in
      if sorted_runs = [] then None
      else if sr_being_compacted (last sorted_runs) then None
      else
        (case SizeAmp_skip sorted_runs 0 of
           None \<Rightarrow> None
         | Some start_index \<Rightarrow>
            (case SizeAmp_accumulate sorted_runs start_index 0 0 of
               None \<Rightarrow> None
             | Some (candidate_size, candidate_count) \<Rightarrow>
                 if candidate_count = 0 then None
                 else
                   let earliest_file_size = sr_size (last sorted_runs) in
                   if candidate_size * 100 < ratio * earliest_file_size then None
                   else
                     let estimated_total_size =
                           sum_list (map sr_size (drop start_index sorted_runs));
                         start_level = sr_level (sorted_runs ! start_index);
                         ins = pick_runs vstorage start_level (drop start_index sorted_runs)
                                 (new_inputs (num_levels vstorage) start_level);
                         out_level = int (num_levels vstorage) - 1;
                         out_level = (if allow_ingest_behind opts then out_level - 1
                                      else out_level)
                     in
                       (case GetPathId (cf_paths opts) (size_ratio opts) estimated_total_size of
                          None \<Rightarrow> None
                        | Some path_id \<Rightarrow>
                            Some \<lparr> inputs = ins, output_level = out_level,
                                   output_path_id = path_id, max_subcompactions = 0,
                                   manual_compaction = False, partial_compaction = False,
                                   compaction_purpose = kEssenceSst,
                                   compaction_reason = kUniversalSizeAmplification,
                                   is_trivial_move = False, input_range = [] \<rparr>))))"

text \<open>
  The trigger of the specification, in its own words: the bottommost run is not being
  compacted, no other run is being compacted, and the compensated sizes of all runs but
  the bottommost, times 100, reach \<open>max_size_amplification_percent\<close> times the size of the
  bottommost run.
\<close>

definition spec_size_amp_trigger :: "Options \<Rightarrow> 'k SortedRun list \<Rightarrow> bool" where
  "spec_size_amp_trigger opts sorted_runs =
     (\<not> sr_being_compacted (last sorted_runs) \<and>
      \<not> (\<exists>r \<in> set (butlast sorted_runs). sr_being_compacted r) \<and>
      sum_list (map sr_compensated_file_size (butlast sorted_runs)) * 100
        \<ge> ucast (max_size_amplification_percent opts) * sr_size (last sorted_runs))"

subsection \<open>\<^verbatim>\<open>PickCompactionToReduceSortedRunsOld\<close> (lines 782-983)\<close>

text \<open>
  The two size tests of the window, lines 853-854 and 861-862:
  \<^verbatim>\<open>double sz = a * (100.0 + ratio) / 100.0; if (sz < static_cast<double>(b)) break;\<close>.
  \<open>scaled_less ops a ratio b\<close> is the condition of the \<^verbatim>\<open>break\<close>.
\<close>

definition scaled_less :: "'d double_ops \<Rightarrow> uint64 \<Rightarrow> uint32 \<Rightarrow> uint64 \<Rightarrow> bool" where
  "scaled_less ops a ratio b =
     d_less ops
       (d_div ops
          (d_mul ops (d_of_nat ops (unat a))
                     (d_add ops (d_of_nat ops 100) (d_of_nat ops (unat ratio))))
          (d_of_nat ops 100))
       (d_of_nat ops (unat b))"

text \<open>
  The inner loop, lines 840-874, from index \<open>i\<close> with the current \<open>candidate_size\<close> and
  \<open>candidate_count\<close>; it returns their final values.
\<close>

function extend_window ::
  "'d double_ops \<Rightarrow> CompactionStopStyle \<Rightarrow> uint32 \<Rightarrow> nat \<Rightarrow> 'k SortedRun list \<Rightarrow> nat
     \<Rightarrow> uint64 \<Rightarrow> nat \<Rightarrow> uint64 \<times> nat" where
  "extend_window ops style ratio max_files_to_compact sorted_runs i candidate_size candidate_count =
     (if candidate_count < max_files_to_compact \<and> i < length sorted_runs then
        (let succeeding_sr = sorted_runs ! i in
         if sr_being_compacted succeeding_sr then (candidate_size, candidate_count)
         else if scaled_less ops candidate_size ratio (sr_size succeeding_sr)
         then (candidate_size, candidate_count)
         else if style = kCompactionStopStyleSimilarSize then
           (if scaled_less ops (sr_size succeeding_sr) ratio candidate_size
            then (candidate_size, candidate_count)
            else extend_window ops style ratio max_files_to_compact sorted_runs (i + 1)
                   (sr_compensated_file_size succeeding_sr) (candidate_count + 1))
         else extend_window ops style ratio max_files_to_compact sorted_runs (i + 1)
                (candidate_size + sr_compensated_file_size succeeding_sr) (candidate_count + 1))
      else (candidate_size, candidate_count))"
  by pat_completeness auto
termination
  by (relation "measure (\<lambda>(ops, style, ratio, m, sorted_runs, i, cs, cc). length sorted_runs - i)")
     auto

declare extend_window.simps [simp del]

text \<open>
  Lines 812-827: advance \<open>loop\<close> to the first run that is not being compacted. The
  result is \<open>length sorted_runs\<close> when there is none (\<^verbatim>\<open>sr == nullptr\<close>).
\<close>

function skip_being_compacted :: "'k SortedRun list \<Rightarrow> nat \<Rightarrow> nat" where
  "skip_being_compacted sorted_runs loop =
     (if loop < length sorted_runs then
        (if \<not> sr_being_compacted (sorted_runs ! loop) then loop
         else skip_being_compacted sorted_runs (loop + 1))
      else loop)"
  by pat_completeness auto
termination
  by (relation "measure (\<lambda>(sorted_runs, loop). length sorted_runs - loop)") auto

declare skip_being_compacted.simps [simp del]

text \<open>
  The outer loop, lines 808-891. \<open>Some (start_index, candidate_count)\<close> when a window of
  at least \<open>min_merge_width\<close> runs is found (\<^verbatim>\<open>done\<close>), \<open>None\<close> otherwise.
\<close>

function find_window ::
  "'d double_ops \<Rightarrow> CompactionStopStyle \<Rightarrow> uint32 \<Rightarrow> nat \<Rightarrow> nat \<Rightarrow> 'k SortedRun list \<Rightarrow> nat
     \<Rightarrow> (nat \<times> nat) option" where
  "find_window ops style ratio max_files_to_compact min_width sorted_runs loop =
     (if loop < length sorted_runs then
        (let loop1 = skip_being_compacted sorted_runs loop;
             found = (loop1 < length sorted_runs);
             candidate_count = (if found then 1 else 0);
             candidate_size =
               (if found then sr_compensated_file_size (sorted_runs ! loop1) else 0)
         in case extend_window ops style ratio max_files_to_compact sorted_runs (loop1 + 1)
                   candidate_size candidate_count of
              (candidate_size1, candidate_count1) \<Rightarrow>
                if candidate_count1 \<ge> min_width then Some (loop1, candidate_count1)
                else find_window ops style ratio max_files_to_compact min_width sorted_runs
                       (loop1 + 1))
      else None)"
  by pat_completeness auto
termination
proof (relation "measure (\<lambda>(ops, style, ratio, m, w, sorted_runs, loop). length sorted_runs - loop)")
  show "wf (measure (\<lambda>(ops :: 'a double_ops, style, ratio, m, w, sorted_runs :: 'b SortedRun list, loop).
              length sorted_runs - loop))"
    by simp
next
  fix ops :: "'a double_ops" and style ratio max_files_to_compact min_width
    and sorted_runs :: "'b SortedRun list" and loop x
  assume lt: "loop < length sorted_runs" and x: "x = skip_being_compacted sorted_runs loop"
  have "l \<le> skip_being_compacted rs l" for l and rs :: "'b SortedRun list"
  proof (induction rs l rule: skip_being_compacted.induct)
    case (1 rs l)
    show ?case
    proof (cases "l < length rs \<and> sr_being_compacted (rs ! l)")
      case True
      then have "skip_being_compacted rs l = skip_being_compacted rs (l + 1)"
        by (subst skip_being_compacted.simps) simp
      with 1 True show ?thesis by simp
    next
      case False
      then have "skip_being_compacted rs l = l"
        by (subst skip_being_compacted.simps) auto
      then show ?thesis by simp
    qed
  qed
  then have "loop \<le> x" using x by simp
  then show "((ops, style, ratio, max_files_to_compact, min_width, sorted_runs, x + 1),
              (ops, style, ratio, max_files_to_compact, min_width, sorted_runs, loop))
             \<in> measure (\<lambda>(ops, style, ratio, m, w, sorted_runs, loop). length sorted_runs - loop)"
    using lt by simp
qed

declare find_window.simps [simp del]

text \<open>
  \<open>ratio\<close> and \<open>max_number_of_files_to_compact\<close> are the \<^verbatim>\<open>unsigned int\<close> arguments.
  The compression heuristic (lines 896-915) only feeds the compression settings, which
  the record leaves out.
\<close>

definition PickCompactionToReduceSortedRunsOld ::
  "'d double_ops \<Rightarrow> Options \<Rightarrow> 'k VersionStorageInfo \<Rightarrow> uint32 \<Rightarrow> uint32 \<Rightarrow> 'k SortedRun list
     \<Rightarrow> 'k Compaction option" where
  "PickCompactionToReduceSortedRunsOld ops opts vstorage ratio max_number_of_files_to_compact
       sorted_runs =
     (let max_files_to_compact =
            min (unat (max_merge_width opts)) (unat max_number_of_files_to_compact);
          min_width = max (unat (min_merge_width opts)) 2
      in case find_window ops (stop_style opts) ratio max_files_to_compact min_width
                sorted_runs 0 of
           None \<Rightarrow> None
         | Some (start_index, candidate_count) \<Rightarrow>
             if candidate_count \<le> 1 then None
             else
               let first_index_after = start_index + candidate_count;
                   estimated_total_size =
                     sum_list (map sr_size (take first_index_after sorted_runs));
                   start_level = sr_level (sorted_runs ! start_index);
                   out_level =
                     (if first_index_after = length sorted_runs
                      then int (num_levels vstorage) - 1
                      else if sr_level (sorted_runs ! first_index_after) = 0 then 0
                      else int (sr_level (sorted_runs ! first_index_after)) - 1);
                   out_level =
                     (if allow_ingest_behind opts \<and> out_level = int (num_levels vstorage) - 1
                      then out_level - 1 else out_level);
                   ins = pick_runs vstorage start_level
                           (take candidate_count (drop start_index sorted_runs))
                           (new_inputs (num_levels vstorage) start_level);
                   reason = (if max_number_of_files_to_compact = 4294967295
                             then kUniversalSizeRatio else kUniversalSortedRunNum)
               in
                 (case GetPathId (cf_paths opts) (size_ratio opts) estimated_total_size of
                    None \<Rightarrow> None
                  | Some path_id \<Rightarrow>
                      Some \<lparr> inputs = ins, output_level = out_level,
                             output_path_id = path_id, max_subcompactions = 0,
                             manual_compaction = False, partial_compaction = False,
                             compaction_purpose = kEssenceSst,
                             compaction_reason = reason,
                             is_trivial_move = False, input_range = [] \<rparr>))"

subsection \<open>\<^verbatim>\<open>PickDeleteTriggeredCompaction\<close> (lines 1132-1261)\<close>

text \<open>
  Lines 1150-1157: walk level 0 in its order; from the first file marked for compaction
  on, every file is pushed to \<^verbatim>\<open>start_level_inputs\<close>. \<open>do_compact\<close> is the
  flag \<^verbatim>\<open>compact\<close>.
\<close>

fun delete_triggered_scan :: "'k FileMetaData list \<Rightarrow> bool \<Rightarrow> 'k FileMetaData list" where
  "delete_triggered_scan [] do_compact = []"
| "delete_triggered_scan (f # fs) do_compact =
     (let do_compact1 = (do_compact \<or> marked_for_compaction f) in
      (if do_compact1 then [f] else []) @ delete_triggered_scan fs do_compact1)"

text \<open>Lines 1176-1181: the first non-empty level from \<open>l\<close> on, or \<open>num_levels\<close>.\<close>

function first_nonempty_level :: "'k VersionStorageInfo \<Rightarrow> nat \<Rightarrow> nat" where
  "first_nonempty_level vstorage l =
     (if l < num_levels vstorage then
        (if NumLevelFiles vstorage l \<noteq> 0 then l else first_nonempty_level vstorage (l + 1))
      else l)"
  by pat_completeness auto
termination
  by (relation "measure (\<lambda>(vstorage, l). num_levels vstorage - l)") auto

declare first_nonempty_level.simps [simp del]

text \<open>
  The choice of the inputs and of the output level: the single-level branch (lines
  1140-1162) and the multi-level branch (lines 1163-1228), the latter through the
  functions of the base class.
\<close>

definition delete_triggered_inputs ::
  "('k, 'it) Collaborators \<Rightarrow> Options \<Rightarrow> 'k PickerState \<Rightarrow> 'k VersionStorageInfo
     \<Rightarrow> ('k CompactionInputFiles list \<times> int) option" where
  "delete_triggered_inputs ext opts st vstorage =
     (if num_levels vstorage = 1 then
        (let start_level_inputs =
               \<lparr> level = 0, files = delete_triggered_scan (LevelFiles vstorage 0) False \<rparr>
         in if length (files start_level_inputs) \<le> 1 then None
            else Some ([start_level_inputs], 0))
      else
        (case PickFilesMarkedForCompaction ext st vstorage of
           (start_level, start_level_inputs) \<Rightarrow>
             if files start_level_inputs = [] then None
             else
               let found_level = first_nonempty_level vstorage (start_level + 1) in
               if found_level = num_levels vstorage \<and> start_level \<noteq> 0 then None
               else
                 let out_level =
                       (if found_level = num_levels vstorage
                        then int (num_levels vstorage) - 1 else int found_level);
                     out_level =
                       (if allow_ingest_behind opts \<and> out_level = int (num_levels vstorage) - 1
                        then out_level - 1 else out_level)
                 in
                   if out_level \<noteq> 0 then
                     (case (if start_level = 0
                            then GetOverlappingL0Files ext st vstorage start_level_inputs out_level
                            else Some start_level_inputs) of
                        None \<Rightarrow> None
                      | Some start_inputs \<Rightarrow>
                          (case SetupOtherInputs ext st vstorage start_inputs
                                  \<lparr> level = nat out_level, files = [] \<rparr> of
                             None \<Rightarrow> None
                           | Some (start_inputs1, output_level_inputs) \<Rightarrow>
                               let ins = start_inputs1 #
                                     (if files output_level_inputs \<noteq> []
                                      then [output_level_inputs] else [])
                               in if FilesRangeOverlapWithCompaction ext st ins out_level
                                  then None
                                  else Some (ins, out_level)))
                   else Some ([start_level_inputs], out_level)))"

definition PickDeleteTriggeredCompaction ::
  "('k, 'it) Collaborators \<Rightarrow> Options \<Rightarrow> 'k PickerState \<Rightarrow> 'k VersionStorageInfo
     \<Rightarrow> 'k Compaction option" where
  "PickDeleteTriggeredCompaction ext opts st vstorage =
     (case delete_triggered_inputs ext opts st vstorage of
        None \<Rightarrow> None
      | Some (ins, out_level) \<Rightarrow>
          let estimated_total_size =
                sum_list (map fd_file_size (LevelFiles vstorage (nat out_level)));
              lazy = (enable_lazy_compaction opts \<and> out_level \<noteq> 0)
          in
            (case GetPathId (cf_paths opts) (size_ratio opts) estimated_total_size of
               None \<Rightarrow> None
             | Some path_id \<Rightarrow>
                 Some \<lparr> inputs = ins, output_level = out_level,
                        output_path_id = path_id,
                        max_subcompactions = (if lazy then 1 else 0),
                        manual_compaction = True, partial_compaction = False,
                        compaction_purpose = (if lazy then kMapSst else kEssenceSst),
                        compaction_reason = kFilesMarkedForCompaction,
                        is_trivial_move = False, input_range = [] \<rparr>))"

text \<open>
  The selection of the specification for the single-level engine, in its own words: the
  first file of level 0 marked for compaction together with all newer files, that is,
  with all files before it in the order of level 0 (index 0 is the newest).
\<close>

definition spec_delete_selection :: "'k FileMetaData list \<Rightarrow> 'k FileMetaData list" where
  "spec_delete_selection l0 =
     (case dropWhile (\<lambda>f. \<not> marked_for_compaction f) l0 of
        [] \<Rightarrow> []
      | m # older \<Rightarrow> takeWhile (\<lambda>f. \<not> marked_for_compaction f) l0 @ [m])"

text \<open>
  The window rule of the specification, in its own words: starting from size \<open>C\<close>, the
  window is extended to the next run as long as \<open>succ.size \<le> C * (100 + ratio) / 100\<close>
  (and, for \<open>SimilarSize\<close>, \<open>C \<le> succ.size * (100 + ratio) / 100\<close>); \<open>C\<close> accumulates the
  total (\<open>TotalSize\<close>) or becomes \<open>succ.size\<close> (\<open>SimilarSize\<close>).
\<close>

function spec_extend_window ::
  "'d double_ops \<Rightarrow> CompactionStopStyle \<Rightarrow> uint32 \<Rightarrow> 'k SortedRun list \<Rightarrow> nat
     \<Rightarrow> uint64 \<Rightarrow> nat \<Rightarrow> uint64 \<times> nat" where
  "spec_extend_window ops style ratio sorted_runs i C n =
     (if i < length sorted_runs then
        (let succ = sorted_runs ! i in
         if \<not> scaled_less ops C ratio (sr_size succ) \<and>
            (if style = kCompactionStopStyleSimilarSize
             then \<not> scaled_less ops (sr_size succ) ratio C else True)
         then spec_extend_window ops style ratio sorted_runs (i + 1)
                (if style = kCompactionStopStyleSimilarSize then sr_size succ
                 else C + sr_size succ) (n + 1)
         else (C, n))
      else (C, n))"
  by pat_completeness auto
termination
  by (relation "measure (\<lambda>(ops, style, ratio, sorted_runs, i, C, n). length sorted_runs - i)")
     auto

declare spec_extend_window.simps [simp del]

text \<open>
  The window rule as the code has it. \<open>window_size style sorted_runs i C k\<close> is the
  candidate size after \<open>k\<close> successors, starting at index \<open>i\<close>, were accepted: the running
  total of compensated sizes, or the compensated size of the last accepted run.
  \<open>window_accepts\<close> tells whether successor number \<open>j\<close> is accepted.
\<close>

definition window_size ::
  "CompactionStopStyle \<Rightarrow> 'k SortedRun list \<Rightarrow> nat \<Rightarrow> uint64 \<Rightarrow> nat \<Rightarrow> uint64" where
  "window_size style sorted_runs i C k =
     (if style = kCompactionStopStyleSimilarSize
      then (if k = 0 then C else sr_compensated_file_size (sorted_runs ! (i + k - 1)))
      else C + sum_list (map sr_compensated_file_size (take k (drop i sorted_runs))))"

definition window_accepts ::
  "'d double_ops \<Rightarrow> CompactionStopStyle \<Rightarrow> uint32 \<Rightarrow> nat \<Rightarrow> 'k SortedRun list \<Rightarrow> nat
     \<Rightarrow> uint64 \<Rightarrow> nat \<Rightarrow> nat \<Rightarrow> bool" where
  "window_accepts ops style ratio max_files_to_compact sorted_runs i C n j =
     (n + j < max_files_to_compact \<and> i + j < length sorted_runs \<and>
      \<not> sr_being_compacted (sorted_runs ! (i + j)) \<and>
      \<not> scaled_less ops (window_size style sorted_runs i C j) ratio
          (sr_size (sorted_runs ! (i + j))) \<and>
      (if style = kCompactionStopStyleSimilarSize
       then \<not> scaled_less ops (sr_size (sorted_runs ! (i + j))) ratio
               (window_size style sorted_runs i C j)
       else True))"

text \<open>
  The window of \<^verbatim>\<open>PickCompactionToReduceSortedRunsOld\<close> that starts at run \<open>s\<close>:
  \<open>window_at \<dots> s k\<close> says that run \<open>s\<close> is not being compacted and that, starting with the
  compensated size of run \<open>s\<close> as candidate size and a count of one, under the cap
  \<open>min(max_merge_width, max_number_of_files_to_compact)\<close>, the successors \<open>0 .. k-1\<close> of
  \<open>s\<close> are accepted and successor \<open>k\<close> is not: the window holds the \<open>k + 1\<close> runs
  \<open>s .. s + k\<close>.
\<close>

definition window_at ::
  "'d double_ops \<Rightarrow> Options \<Rightarrow> uint32 \<Rightarrow> uint32 \<Rightarrow> 'k SortedRun list \<Rightarrow> nat \<Rightarrow> nat \<Rightarrow> bool" where
  "window_at ops opts ratio max_number_of_files_to_compact sorted_runs s k \<longleftrightarrow>
     s < length sorted_runs \<and> \<not> sr_being_compacted (sorted_runs ! s) \<and>
     (\<forall>j. j < k \<longrightarrow>
        window_accepts ops (stop_style opts) ratio
          (min (unat (max_merge_width opts)) (unat max_number_of_files_to_compact))
          sorted_runs (s + 1) (sr_compensated_file_size (sorted_runs ! s)) 1 j) \<and>
     \<not> window_accepts ops (stop_style opts) ratio
         (min (unat (max_merge_width opts)) (unat max_number_of_files_to_compact))
         sorted_runs (s + 1) (sr_compensated_file_size (sorted_runs ! s)) 1 k"

subsection \<open>\<^verbatim>\<open>GenSortedRunGroup\<close> (lines 699-774)\<close>

text \<open>
  \<^verbatim>\<open>SortedRunGroup\<close>; the fields carry the prefix \<open>grp_\<close>. Reads and writes of
  vector elements are checked: an index outside the vector, or an unsigned subtraction
  that would wrap around on the way to an index, makes the result \<open>None\<close>. The counts
  are differences of starts, computed with the subtraction of \<open>nat\<close>; that no difference
  goes below zero is part of what is proved (each start plus its count is the next start).
\<close>

record 'd SortedRunGroup =
  grp_start :: nat
  grp_count :: nat
  grp_ratio :: 'd

text \<open>\<^verbatim>\<open>std::accumulate(b, e, 0.0)\<close>.\<close>

definition d_sum :: "'d double_ops \<Rightarrow> 'd list \<Rightarrow> 'd" where
  "d_sum ops xs = foldl (d_add ops) (d_of_nat ops 0) xs"

text \<open>The lambda \<^verbatim>\<open>F\<close>: \<^verbatim>\<open>(std::pow(q, n + 1) - q) / (q - 1)\<close>.\<close>

definition geo_F :: "'d double_ops \<Rightarrow> 'd \<Rightarrow> nat \<Rightarrow> 'd" where
  "geo_F ops q n =
     d_div ops (d_sub ops (d_pow ops q (d_of_nat ops (n + 1))) q)
               (d_sub ops q (d_of_nat ops 1))"

text \<open>Lines 721-724: \<^verbatim>\<open>for (k = 2; k <= g; ++k) Fp += k * (q_k *= q);\<close>.\<close>

function newton_Fp :: "'d double_ops \<Rightarrow> 'd \<Rightarrow> nat \<Rightarrow> nat \<Rightarrow> 'd \<Rightarrow> 'd \<Rightarrow> 'd" where
  "newton_Fp ops q g k Fp q_k =
     (if k \<le> g then
        (let q_k1 = d_mul ops q_k q in
         newton_Fp ops q g (k + 1) (d_add ops Fp (d_mul ops (d_of_nat ops k) q_k1)) q_k1)
      else Fp)"
  by pat_completeness auto
termination
  by (relation "measure (\<lambda>(ops, q, g, k, Fp, q_k). g + 1 - k)") auto

declare newton_Fp.simps [simp del]

text \<open>Lines 720-726: the Newton-Raphson steps; \<open>c\<close> counts the steps still to do.\<close>

fun newton :: "'d double_ops \<Rightarrow> 'd \<Rightarrow> nat \<Rightarrow> nat \<Rightarrow> 'd \<Rightarrow> 'd" where
  "newton ops S g 0 q = q"
| "newton ops S g (Suc c) q =
     (let Fp = newton_Fp ops q g 2 q q in
      newton ops S g c (d_sub ops q (d_div ops (d_sub ops (geo_F ops q g) S) Fp)))"

text \<open>The lambda \<^verbatim>\<open>Q\<close> on the range \<open>xs\<close> with \<open>g\<close> groups.\<close>

definition Q :: "'d double_ops \<Rightarrow> 'd list \<Rightarrow> nat \<Rightarrow> 'd" where
  "Q ops xs g =
     (let S = d_sum ops xs;
          q = d_pow ops S (d_div ops (d_of_nat ops 1) (d_of_nat ops g))
      in if d_le ops S (d_of_nat ops (g + 1)) then d_of_nat ops 1
         else newton ops S g 8 q)"

text \<open>
  Lines 740-745: \<^verbatim>\<open>for (j = i; j < g; ++j)\<close>, every dropped tail run becomes a group
  of its own.
\<close>

function mark_singletons ::
  "'d list \<Rightarrow> nat \<Rightarrow> nat \<Rightarrow> nat \<Rightarrow> 'd SortedRunGroup list \<Rightarrow> 'd SortedRunGroup list option" where
  "mark_singletons sr sr_sz g j out =
     (if j < g then
        (if j + sr_sz < g then None
         else
           (let start = j + sr_sz - g in
            if start < length sr \<and> j < length out
            then mark_singletons sr sr_sz g (j + 1)
                   (out[j := \<lparr> grp_start = start, grp_count = 1, grp_ratio = sr ! start \<rparr>])
            else None))
      else Some out)"
  by pat_completeness auto
termination
  by (relation "measure (\<lambda>(sr, sr_sz, g, j, out). g - j)") auto

declare mark_singletons.simps [simp del]

text \<open>
  Lines 736-750: the refinement loop, with \<open>i\<close> counting down. It returns the final
  \<open>sr_sz\<close> (the variable \<^verbatim>\<open>sr_size\<close>), \<open>g\<close>, \<open>q\<close> and output vector.
\<close>

function refine_groups ::
  "'d double_ops \<Rightarrow> 'd list \<Rightarrow> nat \<Rightarrow> nat \<Rightarrow> nat \<Rightarrow> 'd \<Rightarrow> 'd SortedRunGroup list
     \<Rightarrow> (nat \<times> nat \<times> 'd \<times> 'd SortedRunGroup list) option" where
  "refine_groups ops sr i sr_sz g q out =
     (if d_less ops (d_of_nat ops 1) q \<and> i > 0 then
        (if g < i \<or> sr_sz < g - i \<or> length sr < sr_sz then None
         else
           (let e = g - i;
                new_q = Q ops (take (sr_sz - e) sr) (g - e)
            in if d_less ops new_q q then
                 (case mark_singletons sr sr_sz g i out of
                    None \<Rightarrow> None
                  | Some out1 \<Rightarrow> refine_groups ops sr (i - 1) (sr_sz - e) (g - e) new_q out1)
               else refine_groups ops sr (i - 1) sr_sz g q out))
      else Some (sr_sz, g, q, out))"
  by pat_completeness auto
termination
  by (relation "measure (\<lambda>(ops, sr, i, sr_sz, g, q, out). i)") auto

declare refine_groups.simps [simp del]

text \<open>
  Lines 757-768: the sweep from right to left. \<open>m\<close> is the number of elements still to
  visit, the loop variable \<^verbatim>\<open>i\<close> is \<open>m - 1\<close>.
\<close>

fun sweep_groups ::
  "'d double_ops \<Rightarrow> 'd list \<Rightarrow> 'd \<Rightarrow> nat \<Rightarrow> 'd \<Rightarrow> 'd \<Rightarrow> nat \<Rightarrow> 'd SortedRunGroup list
     \<Rightarrow> 'd SortedRunGroup list option" where
  "sweep_groups ops sr q 0 sr_acc q_acc q_i out = Some out"
| "sweep_groups ops sr q (Suc i) sr_acc q_acc q_i out =
     (if i < length sr \<and> q_i < length out then
        (let new_acc = d_add ops sr_acc (sr ! i) in
         if (i < q_i \<or> d_less ops q_acc sr_acc \<or>
             d_less ops (d_abs ops (d_sub ops sr_acc q_acc))
                        (d_abs ops (d_sub ops new_acc q_acc))) \<and> q_i > 0
         then
           (let out1 = out[q_i := (out ! q_i)\<lparr> grp_start := i + 1 \<rparr>];
                q_acc1 = d_add ops q_acc (d_pow ops q (d_of_nat ops q_i));
                q_i1 = q_i - 1;
                out2 = out1[q_i1 := (out1 ! q_i1)\<lparr> grp_ratio := d_of_nat ops 0 \<rparr>];
                out3 = out2[q_i1 := (out2 ! q_i1)\<lparr> grp_ratio :=
                                      d_add ops (grp_ratio (out2 ! q_i1)) (sr ! i) \<rparr>]
            in sweep_groups ops sr q i new_acc q_acc1 q_i1 out3)
         else
           sweep_groups ops sr q i new_acc q_acc q_i
             (out[q_i := (out ! q_i)\<lparr> grp_ratio :=
                           d_add ops (grp_ratio (out ! q_i)) (sr ! i) \<rparr>]))
      else None)"

text \<open>Lines 769-771: \<^verbatim>\<open>for (i = 1; i < g; ++i) o[i - 1].count = o[i].start - o[i - 1].start\<close>.\<close>

function set_counts :: "nat \<Rightarrow> nat \<Rightarrow> 'd SortedRunGroup list \<Rightarrow> 'd SortedRunGroup list option" where
  "set_counts g i out =
     (if i < g then
        (if i < length out \<and> 0 < i then
           set_counts g (i + 1)
             (out[i - 1 := (out ! (i - 1))\<lparr> grp_count :=
                              grp_start (out ! i) - grp_start (out ! (i - 1)) \<rparr>])
         else None)
      else Some out)"
  by pat_completeness auto
termination
  by (relation "measure (\<lambda>(g, i, out). g - i)") auto

declare set_counts.simps [simp del]

text \<open>\<^verbatim>\<open>o.resize(group)\<close>: cut the vector, or fill it with value-initialised groups.\<close>

definition resize_groups :: "'d double_ops \<Rightarrow> 'd SortedRunGroup list \<Rightarrow> nat \<Rightarrow> 'd SortedRunGroup list" where
  "resize_groups ops out n =
     take n out @
     replicate (n - length out) \<lparr> grp_start = 0, grp_count = 0, grp_ratio = d_of_nat ops 0 \<rparr>"

text \<open>
  The function returns the common ratio and leaves the groups in \<^verbatim>\<open>*output_group\<close>,
  whose previous content is \<open>out0\<close>; \<open>n_group\<close> is the argument \<^verbatim>\<open>group\<close>.
\<close>

definition GenSortedRunGroup ::
  "'d double_ops \<Rightarrow> 'd list \<Rightarrow> nat \<Rightarrow> 'd SortedRunGroup list
     \<Rightarrow> ('d \<times> 'd SortedRunGroup list) option" where
  "GenSortedRunGroup ops sr n_group out0 =
     (let out = resize_groups ops out0 n_group;
          ret_q = Q ops sr n_group
      in if n_group = 0 then None
         else
           (case refine_groups ops sr (n_group - 1) (length sr) n_group ret_q out of
              None \<Rightarrow> None
            | Some (sr_sz, g, q, out1) \<Rightarrow>
                if sr_sz = 0 \<or> length sr < sr_sz \<or> g = 0 \<or> length out1 < g then None
                else
                  (let sr_acc = sr ! (sr_sz - 1);
                       q_acc = d_pow ops q (d_of_nat ops g);
                       q_i = g - 1;
                       out2 = out1[q_i := (out1 ! q_i)\<lparr> grp_ratio := sr_acc \<rparr>];
                       out3 = out2[0 := (out2 ! 0)\<lparr> grp_start := 0 \<rparr>]
                   in case sweep_groups ops sr q (sr_sz - 1) sr_acc q_acc q_i out3 of
                        None \<Rightarrow> None
                      | Some out4 \<Rightarrow>
                          (case set_counts g 1 out4 of
                             None \<Rightarrow> None
                           | Some out5 \<Rightarrow>
                               Some (ret_q,
                                 out5[g - 1 := (out5 ! (g - 1))\<lparr> grp_count :=
                                        sr_sz - grp_start (out5 ! (g - 1)) \<rparr>])))))"

subsection \<open>\<^verbatim>\<open>CalculateSortedRuns\<close> (lines 220-283)\<close>

text \<open>
  \<^verbatim>\<open>GetFilesSize\<close> recurses through \<^verbatim>\<open>depend_files\<close> and does not return when the
  dependencies are cyclic. The model bounds the depth of the recursion by \<open>fuel\<close>; \<open>None\<close>
  says that the fuel did not suffice. \<open>f\<close> is the pointer argument (\<open>None\<close> for null).
\<close>

fun GetFilesSize ::
  "nat \<Rightarrow> 'k VersionStorageInfo \<Rightarrow> 'k FileMetaData option \<Rightarrow> nat \<Rightarrow> uint64 option" where
  "GetFilesSize 0 vstorage f file_number = None"
| "GetFilesSize (Suc fuel) vstorage f file_number =
     (case (case f of None \<Rightarrow> depend_files vstorage file_number | Some g \<Rightarrow> Some g) of
        None \<Rightarrow> Some 0
      | Some g \<Rightarrow>
          if sst_purpose g \<noteq> kEssenceSst then
            foldl (\<lambda>acc depend.
                     case acc of
                       None \<Rightarrow> None
                     | Some file_size \<Rightarrow>
                         (case GetFilesSize fuel vstorage None depend of
                            None \<Rightarrow> None
                          | Some s \<Rightarrow> Some (file_size + s)))
                  (Some (fd_file_size g)) (sst_depend g)
          else Some (fd_file_size g))"

text \<open>One run per file of level 0.\<close>

fun level0_runs ::
  "nat \<Rightarrow> 'k VersionStorageInfo \<Rightarrow> 'k FileMetaData list \<Rightarrow> 'k SortedRun list option" where
  "level0_runs fuel vstorage [] = Some []"
| "level0_runs fuel vstorage (f # fs) =
     (case GetFilesSize fuel vstorage (Some f) (2 ^ 64 - 1) of
        None \<Rightarrow> None
      | Some sz \<Rightarrow>
          (case level0_runs fuel vstorage fs of
             None \<Rightarrow> None
           | Some runs \<Rightarrow>
               Some (\<lparr> sr_level = 0, sr_file = Some f, sr_size = sz,
                       sr_compensated_file_size = compensated_file_size f,
                       sr_being_compacted = being_compacted f,
                       sr_wait_reduce = False \<rparr> # runs)))"

text \<open>
  Lines 256-276, the loop over the files of one level below level 0, with the state
  \<open>(total_compensated_size, total_size, being_compacted, is_first)\<close>.
\<close>

fun level_totals ::
  "nat \<Rightarrow> 'k VersionStorageInfo \<Rightarrow> bool \<Rightarrow> 'k FileMetaData list
     \<Rightarrow> uint64 \<times> uint64 \<times> bool \<times> bool \<Rightarrow> (uint64 \<times> uint64 \<times> bool \<times> bool) option" where
  "level_totals fuel vstorage trivial_move [] acc = Some acc"
| "level_totals fuel vstorage trivial_move (f # fs)
       (total_compensated_size, total_size, compacted, is_first) =
     (case GetFilesSize fuel vstorage (Some f) (2 ^ 64 - 1) of
        None \<Rightarrow> None
      | Some sz \<Rightarrow>
          (let compacted1 = (if trivial_move \<and> being_compacted f then being_compacted f
                             else compacted);
               compacted2 = (if is_first then being_compacted f else compacted1)
           in level_totals fuel vstorage trivial_move fs
                (total_compensated_size + compensated_file_size f, total_size + sz,
                 compacted2, False)))"

fun deeper_runs ::
  "nat \<Rightarrow> 'k VersionStorageInfo \<Rightarrow> bool \<Rightarrow> nat list \<Rightarrow> 'k SortedRun list option" where
  "deeper_runs fuel vstorage trivial_move [] = Some []"
| "deeper_runs fuel vstorage trivial_move (l # ls) =
     (case level_totals fuel vstorage trivial_move (LevelFiles vstorage l) (0, 0, False, True) of
        None \<Rightarrow> None
      | Some (total_compensated_size, total_size, compacted, is_first) \<Rightarrow>
          (case deeper_runs fuel vstorage trivial_move ls of
             None \<Rightarrow> None
           | Some runs \<Rightarrow>
               Some ((if total_compensated_size > 0
                      then [\<lparr> sr_level = l, sr_file = None, sr_size = total_size,
                               sr_compensated_file_size = total_compensated_size,
                               sr_being_compacted = compacted,
                               sr_wait_reduce = False \<rparr>]
                      else []) @ runs)))"

definition CalculateSortedRuns ::
  "nat \<Rightarrow> 'k VersionStorageInfo \<Rightarrow> Options \<Rightarrow> 'k SortedRun list option" where
  "CalculateSortedRuns fuel vstorage opts =
     (case level0_runs fuel vstorage (LevelFiles vstorage 0) of
        None \<Rightarrow> None
      | Some runs0 \<Rightarrow>
          (case deeper_runs fuel vstorage (allow_trivial_move opts)
                  [1..<num_levels vstorage] of
             None \<Rightarrow> None
           | Some runs \<Rightarrow> Some (runs0 @ runs)))"

subsection \<open>\<^verbatim>\<open>PickTrivialMoveCompaction\<close> (lines 1263-1339)\<close>

definition is_compaction_output_level :: "'k PickerState \<Rightarrow> int \<Rightarrow> bool" where
  "is_compaction_output_level st l =
     list_ex (\<lambda>c. output_level c = l) (compactions_in_progress st)"

text \<open>Lines 1285-1290: the lowest empty level, from \<open>out_level\<close> upwards, that no plan in flight writes to.\<close>

function find_empty_level :: "'k PickerState \<Rightarrow> 'k VersionStorageInfo \<Rightarrow> int \<Rightarrow> int" where
  "find_empty_level st vstorage out_level =
     (if out_level \<ge> 1 then
        (if LevelFiles vstorage (nat out_level) = [] \<and>
            \<not> is_compaction_output_level st out_level
         then out_level
         else find_empty_level st vstorage (out_level - 1))
      else out_level)"
  by pat_completeness auto
termination
  by (relation "measure (\<lambda>(st, vstorage, out_level). nat out_level)") auto

declare find_empty_level.simps [simp del]

text \<open>Lines 1296-1304: the next non-empty level above; the result carries \<^verbatim>\<open>found_start_level\<close>.\<close>

function find_start_level ::
  "'k PickerState \<Rightarrow> 'k VersionStorageInfo \<Rightarrow> int \<Rightarrow> int \<times> bool" where
  "find_start_level st vstorage from_level =
     (if from_level > 0 then
        (if is_compaction_output_level st from_level then (from_level, False)
         else if LevelFiles vstorage (nat from_level) \<noteq> [] then (from_level, True)
         else find_start_level st vstorage (from_level - 1))
      else (from_level, False))"
  by pat_completeness auto
termination
  by (relation "measure (\<lambda>(st, vstorage, from_level). nat from_level)") auto

declare find_start_level.simps [simp del]

text \<open>
  The \<^verbatim>\<open>while (true)\<close> loop, lines 1283-1314: \<open>None\<close> for \<^verbatim>\<open>return nullptr\<close>,
  otherwise the start level and the output level at the \<^verbatim>\<open>break\<close>.
\<close>

function trivial_move_levels ::
  "('k, 'it) Collaborators \<Rightarrow> 'k PickerState \<Rightarrow> 'k VersionStorageInfo \<Rightarrow> int \<Rightarrow> (int \<times> int) option" where
  "trivial_move_levels ext st vstorage out_level =
     (let out_level1 = find_empty_level st vstorage out_level in
      if out_level1 < 1 then None
      else
        (case find_start_level st vstorage (out_level1 - 1) of
           (from_level, found_start_level) \<Rightarrow>
             if from_level = 0 then Some (from_level, out_level1)
             else if found_start_level \<and>
                     \<not> AreFilesInCompaction ext (LevelFiles vstorage (nat from_level))
             then Some (from_level, out_level1)
             else trivial_move_levels ext st vstorage (from_level - 1)))"
  by pat_completeness auto
termination
proof (relation "measure (\<lambda>(ext, st, vstorage, out_level). nat out_level)")
  show "wf (measure (\<lambda>(ext :: ('a, 'b) Collaborators, st :: 'a PickerState,
                       vstorage :: 'a VersionStorageInfo, out_level). nat out_level))"
    by simp
next
  fix ext :: "('a, 'b) Collaborators" and st :: "'a PickerState" and vstorage :: "'a VersionStorageInfo"
    and out_level x :: int and from_level :: int and found_start_level :: bool
  assume x: "x = find_empty_level st vstorage out_level"
    and ge: "\<not> x < 1"
    and fs: "(from_level, found_start_level) = find_start_level st vstorage (x - 1)"
  have e: "find_empty_level s v l \<le> l" for s :: "'a PickerState" and v :: "'a VersionStorageInfo" and l
  proof (induction s v l rule: find_empty_level.induct)
    case (1 s v l)
    show ?case
    proof (cases "l \<ge> 1 \<and> \<not> (LevelFiles v (nat l) = [] \<and> \<not> is_compaction_output_level s l)")
      case True
      then have "find_empty_level s v l = find_empty_level s v (l - 1)"
        by (subst find_empty_level.simps) auto
      with 1 True show ?thesis by fastforce
    next
      case False
      then have "find_empty_level s v l = l"
        by (subst find_empty_level.simps) auto
      then show ?thesis by simp
    qed
  qed
  have f: "fst (find_start_level s v l) \<le> l" for s :: "'a PickerState" and v :: "'a VersionStorageInfo" and l
  proof (induction s v l rule: find_start_level.induct)
    case (1 s v l)
    show ?case
    proof (cases "l > 0 \<and> \<not> is_compaction_output_level s l \<and> LevelFiles v (nat l) = []")
      case True
      then have "find_start_level s v l = find_start_level s v (l - 1)"
        by (subst find_start_level.simps) auto
      with 1 True show ?thesis by fastforce
    next
      case False
      then have "fst (find_start_level s v l) = l"
        by (subst find_start_level.simps) auto
      then show ?thesis by simp
    qed
  qed
  have "from_level \<le> x - 1"
    using f[of st vstorage "x - 1"] fs[symmetric] by simp
  moreover have "x \<le> out_level"
    unfolding x by (rule e)
  ultimately show "((ext, st, vstorage, from_level - 1), (ext, st, vstorage, out_level))
      \<in> measure (\<lambda>(ext, st, vstorage, out_level). nat out_level)"
    using ge by simp
qed

declare trivial_move_levels.simps [simp del]

definition PickTrivialMoveCompaction ::
  "('k, 'it) Collaborators \<Rightarrow> Options \<Rightarrow> 'k PickerState \<Rightarrow> 'k VersionStorageInfo
     \<Rightarrow> 'k Compaction option" where
  "PickTrivialMoveCompaction ext opts st vstorage =
     (if \<not> allow_trivial_move opts then None
      else
        (let out_level = int (num_levels vstorage) - 1;
             out_level = (if allow_ingest_behind opts then out_level - 1 else out_level)
         in case trivial_move_levels ext st vstorage out_level of
              None \<Rightarrow> None
            | Some (from_level, out_level1) \<Rightarrow>
                (let plan = (\<lambda>fs path_id.
                       \<lparr> inputs = [\<lparr> level = nat from_level, files = fs \<rparr>],
                         output_level = out_level1, output_path_id = path_id,
                         max_subcompactions = 0, manual_compaction = False,
                         partial_compaction = False, compaction_purpose = kEssenceSst,
                         compaction_reason = kTrivialMoveLevel, is_trivial_move = False, input_range = [] \<rparr>)
                 in if from_level = 0 then
                      (let level0_files = LevelFiles vstorage 0 in
                       if level0_files = [] \<or> being_compacted (last level0_files) then None
                       else Some (plan [last level0_files] (fd_path_id (last level0_files))))
                    else
                      (case LevelFiles vstorage (nat from_level) of
                         [] \<Rightarrow> None
                       | f # fs \<Rightarrow> Some (plan (f # fs) (fd_path_id f))))))"

subsection \<open>\<^verbatim>\<open>PickCompositeCompaction\<close> (lines 1341-1747)\<close>

text \<open>
  Lines 1351-1390: the choice of the target, walking the sorted runs from the bottom.
  The state is the chosen input (\<open>None\<close> for \<^verbatim>\<open>inputs.level == -1\<close>) and
  \<^verbatim>\<open>max_read_amp\<close>; the list argument is the reversed vector. A whole level chosen for
  a rebuild of its map has the empty file list. A sorted run below level 0 has files, so
  that \<^verbatim>\<open>level_files.front()\<close> exists; the model skips a run without.
\<close>

fun composite_target ::
  "('k, 'it) Collaborators \<Rightarrow> 'k VersionStorageInfo \<Rightarrow> 'k SortedRun list
     \<Rightarrow> 'k CompactionInputFiles option \<Rightarrow> nat \<Rightarrow> 'k CompactionInputFiles option" where
  "composite_target ext vstorage [] chosen max_read_amp = chosen"
| "composite_target ext vstorage (sr # rest) chosen max_read_amp =
     (let consider = (\<lambda>f.
            case GetSstReadAmp ext f of
              None \<Rightarrow> composite_target ext vstorage rest chosen max_read_amp
            | Some level_space_amplification \<Rightarrow>
                if level_space_amplification \<ge> max_read_amp
                then composite_target ext vstorage rest
                       (Some \<lparr> level = sr_level sr, files = [f] \<rparr>) level_space_amplification
                else composite_target ext vstorage rest chosen max_read_amp)
      in
        if sr_wait_reduce sr then composite_target ext vstorage rest chosen max_read_amp
        else if sr_level sr > 0 then
          (if \<not> has_space_amplification_at vstorage (sr_level sr)
           then composite_target ext vstorage rest chosen max_read_amp
           else if AreFilesInCompaction ext (LevelFiles vstorage (sr_level sr))
           then composite_target ext vstorage rest chosen max_read_amp
           else if length (LevelFiles vstorage (sr_level sr)) > 1
           then Some \<lparr> level = sr_level sr, files = [] \<rparr>
           else
             (case LevelFiles vstorage (sr_level sr) of
                [] \<Rightarrow> composite_target ext vstorage rest chosen max_read_amp
              | f # fs \<Rightarrow> consider f))
        else
          (case sr_file sr of
             None \<Rightarrow> composite_target ext vstorage rest chosen max_read_amp
           | Some f \<Rightarrow>
               if being_compacted f \<or> sst_purpose f \<noteq> kMapSst
               then composite_target ext vstorage rest chosen max_read_amp
               else consider f))"

text \<open>
  The lambda \<^verbatim>\<open>new_compaction\<close>, lines 1398-1455. Its first loop joins a range to
  the one before it when their starts or their limits are equal for the user comparator;
  \<open>merge_ranges\<close> walks the vector with \<open>prev\<close> for \<^verbatim>\<open>it[-1]\<close>. The three assertions on
  the ranges only check and are left out.
\<close>

fun merge_ranges ::
  "('k, 'it) Collaborators \<Rightarrow> 'k RangeStorage \<Rightarrow> 'k RangeStorage list \<Rightarrow> 'k RangeStorage list" where
  "merge_ranges ext prev [] = [prev]"
| "merge_ranges ext prev (r # rest) =
     (if user_Compare ext (rs_start r) (rs_start prev) = 0 \<or>
         user_Compare ext (rs_limit r) (rs_limit prev) = 0
      then merge_ranges ext
             (prev\<lparr> rs_limit := rs_limit r, rs_include_limit := rs_include_limit r \<rparr>) rest
      else prev # merge_ranges ext r rest)"

definition remove_empty_ranges ::
  "('k, 'it) Collaborators \<Rightarrow> 'k RangeStorage list \<Rightarrow> 'k RangeStorage list" where
  "remove_empty_ranges ext rs = (case rs of [] \<Rightarrow> [] | r # rest \<Rightarrow> merge_ranges ext r rest)"

definition composite_new_compaction ::
  "('k, 'it) Collaborators \<Rightarrow> Options \<Rightarrow> 'k CompactionInputFiles \<Rightarrow> SstPurpose \<Rightarrow> nat
     \<Rightarrow> 'k RangeStorage list \<Rightarrow> 'k Compaction option" where
  "composite_new_compaction ext opts ins purpose max_sub ranges =
     (case GetPathId (cf_paths opts) (size_ratio opts)
             (sum_list (map fd_file_size (files ins))) of
        None \<Rightarrow> None
      | Some path_id \<Rightarrow>
          Some \<lparr> inputs = [ins], output_level = int (level ins), output_path_id = path_id,
                 max_subcompactions = max_sub, manual_compaction = False,
                 partial_compaction = True, compaction_purpose = purpose,
                 compaction_reason = kCompositeAmplification, is_trivial_move = False,
                 input_range = remove_empty_ranges ext ranges \<rparr>)"

text \<open>
  The lambdas \<^verbatim>\<open>is_perfect\<close> (lines 1476-1493) and \<^verbatim>\<open>set_include_limit\<close> (lines
  1507-1512, whose assertion only checks), and \<^verbatim>\<open>estimate_size\<close> (lines 1622-1628).
  \<^verbatim>\<open>assign_user_key(key, ikey)\<close> sets \<open>key\<close> to \<open>ExtractUserKey ext ikey\<close>. \<open>front\<close> is
  \<^verbatim>\<open>inputs.files.front()\<close>.
\<close>

definition is_perfect ::
  "('k, 'it) Collaborators \<Rightarrow> 'k VersionStorageInfo \<Rightarrow> 'k MapSstElement \<Rightarrow> bool" where
  "is_perfect ext vstorage e =
     (if length (me_link e) \<noteq> 1 then False
      else
        (case depend_files vstorage (link_file_number (hd (me_link e))) of
           None \<Rightarrow> False
         | Some f \<Rightarrow>
             if sst_purpose f \<noteq> kEssenceSst then False else IsPrefaceRange ext e f))"

definition set_include_limit ::
  "('k, 'it) Collaborators \<Rightarrow> 'k FileMetaData \<Rightarrow> 'k RangeStorage \<Rightarrow> 'k RangeStorage" where
  "set_include_limit ext front rng =
     rng\<lparr> rs_include_limit := True, rs_limit := ExtractUserKey ext (largest front) \<rparr>"

definition estimate_size :: "'k MapSstElement \<Rightarrow> uint64" where
  "estimate_size element = sum_list (map link_size (me_link element))"

text \<open>
  Lines 1524-1537, the loop over the links of one map element in the first scan: \<open>sum_sz\<close>
  and \<open>max_sz\<close> are \<^verbatim>\<open>sum\<close> and \<^verbatim>\<open>max\<close>; \<open>file_used\<close> maps a file number to
  \<^verbatim>\<open>FileUseInfo\<close>, the pair of \<^verbatim>\<open>size\<close> and \<^verbatim>\<open>used\<close>. The result is \<open>None\<close> when
  \<open>GetFilesSize\<close> runs out of fuel.
\<close>

fun use_links ::
  "nat \<Rightarrow> 'k VersionStorageInfo \<Rightarrow> LinkTarget list \<Rightarrow> (nat \<rightharpoonup> uint64 \<times> uint64) \<Rightarrow> uint64 \<Rightarrow> uint64
     \<Rightarrow> ((nat \<rightharpoonup> uint64 \<times> uint64) \<times> uint64 \<times> uint64) option" where
  "use_links fuel vstorage [] file_used sum_sz max_sz = Some (file_used, sum_sz, max_sz)"
| "use_links fuel vstorage (l # ls) file_used sum_sz max_sz =
     (case file_used (link_file_number l) of
        None \<Rightarrow>
          (case GetFilesSize fuel vstorage None (link_file_number l) of
             None \<Rightarrow> None
           | Some file_size \<Rightarrow>
               use_links fuel vstorage ls
                 (file_used(link_file_number l \<mapsto> (file_size, link_size l)))
                 (sum_sz + link_size l) (max max_sz (link_size l)))
      | Some (file_size, used) \<Rightarrow>
          use_links fuel vstorage ls
            (file_used(link_file_number l \<mapsto> (file_size, used + link_size l)))
            (sum_sz + link_size l) (max max_sz (link_size l)))"

text \<open>
  The first scan, lines 1515-1559, which looks for regions of elements with more than
  two links of which one outweighs the others. The arguments after the iterator are the
  local variables \<^verbatim>\<open>map_element\<close>, \<^verbatim>\<open>counter\<close>, \<^verbatim>\<open>file_used\<close>, \<^verbatim>\<open>has_start\<close>,
  \<^verbatim>\<open>range\<close> and \<^verbatim>\<open>input_range\<close>; the result holds the iterator and these variables
  after the loop. The inner \<open>None\<close> stands for \<^verbatim>\<open>return nullptr\<close>, the outer \<open>None\<close> for a
  call that does not return (the iterator stays valid forever, or \<open>GetFilesSize\<close> is out
  of fuel). A range that was moved into \<^verbatim>\<open>input_range\<close> is written anew before it is
  read again, except for its two flags, which a move leaves as they are; the model keeps
  the range as it was.
\<close>

partial_function (option) composite_scan_links ::
  "('k, 'it) Collaborators \<Rightarrow> nat \<Rightarrow> Options \<Rightarrow> 'k VersionStorageInfo \<Rightarrow> 'it
     \<Rightarrow> 'k MapSstElement \<Rightarrow> nat \<Rightarrow> (nat \<rightharpoonup> uint64 \<times> uint64) \<Rightarrow> bool \<Rightarrow> 'k RangeStorage
     \<Rightarrow> 'k RangeStorage list
     \<Rightarrow> ('it \<times> 'k MapSstElement \<times> nat \<times> (nat \<rightharpoonup> uint64 \<times> uint64) \<times> bool \<times> 'k RangeStorage
          \<times> 'k RangeStorage list) option option" where
  "composite_scan_links ext fuel opts vstorage iter map_element counter file_used has_start
       rng ranges =
     (if \<not> it_Valid ext iter
      then Some (Some (iter, map_element, counter, file_used, has_start, rng, ranges))
      else
        (case Decode ext iter map_element of
           (ok, e) \<Rightarrow>
             if \<not> ok then Some None
             else if is_perfect ext vstorage e
             then composite_scan_links ext fuel opts vstorage (it_Next ext iter) e
                    (counter + 1) file_used has_start rng ranges
             else
               (case use_links fuel vstorage (me_link e) file_used 0 0 of
                  None \<Rightarrow> None
                | Some (file_used1, sum_sz, max_sz) \<Rightarrow>
                    if length (me_link e) > 2 \<and> (sum_sz - max_sz) * 2 < max_sz then
                      composite_scan_links ext fuel opts vstorage (it_Next ext iter) e
                        (counter + 1) file_used1 True
                        ((if has_start then rng
                          else rng\<lparr> rs_start := ExtractUserKey ext (me_smallest_key e) \<rparr>)
                           \<lparr> rs_limit := ExtractUserKey ext (me_largest_key e) \<rparr>)
                        ranges
                    else if has_start \<and>
                            user_Compare ext (ExtractUserKey ext (me_smallest_key e))
                              (rs_limit rng) \<noteq> 0
                    then
                      (let rng1 = rng\<lparr> rs_limit := ExtractUserKey ext (me_smallest_key e),
                                           rs_include_start := True,
                                           rs_include_limit := False \<rparr>
                       in if length (ranges @ [rng1]) \<ge> ioptions_max_subcompactions opts
                          then Some (Some (iter, e, counter + 1, file_used1, False, rng1,
                                           ranges @ [rng1]))
                          else composite_scan_links ext fuel opts vstorage (it_Next ext iter) e
                                 (counter + 1) file_used1 False rng1 (ranges @ [rng1]))
                    else composite_scan_links ext fuel opts vstorage (it_Next ext iter) e
                           (counter + 1) file_used1 False rng ranges)))"

text \<open>
  Lines 1583-1597 of the second scan: the sizes and the used sizes of the files that the
  links of an element point to, \<open>None\<close> when one of them is not in \<open>file_used\<close> (\<^verbatim>\<open>p = -1\<close>),
  and the priority \<^verbatim>\<open>p\<close> of the element.
\<close>

fun link_usage ::
  "(nat \<rightharpoonup> uint64 \<times> uint64) \<Rightarrow> LinkTarget list \<Rightarrow> uint64 \<Rightarrow> uint64 \<Rightarrow> (uint64 \<times> uint64) option" where
  "link_usage file_used [] sz used = Some (sz, used)"
| "link_usage file_used (l # ls) sz used =
     (case file_used (link_file_number l) of
        None \<Rightarrow> None
      | Some (file_size, file_use) \<Rightarrow> link_usage file_used ls (sz + file_size) (used + file_use))"

definition element_priority :: "'d double_ops \<Rightarrow> nat \<Rightarrow> uint64 \<Rightarrow> uint64 \<Rightarrow> 'd" where
  "element_priority ops links sz used =
     d_add ops (d_of_nat ops links)
       (d_div ops
          (d_mul ops (d_of_nat ops 2) (d_of_nat ops (unat (sz - min used sz))))
          (d_of_nat ops (unat sz)))"

text \<open>
  The second scan, lines 1578-1605, which gives every element whose files are all known
  a priority. \<open>counter\<close> indexes \<^verbatim>\<open>internal_key_storage\<close> from its end; below zero the
  index is outside the vector, for which the model has no result. The heap item holds
  the largest key of the element and the priority.
\<close>

partial_function (option) composite_scan_priority ::
  "('k, 'it) Collaborators \<Rightarrow> 'd double_ops \<Rightarrow> (nat \<rightharpoonup> uint64 \<times> uint64) \<Rightarrow> 'it
     \<Rightarrow> 'k MapSstElement \<Rightarrow> nat \<Rightarrow> ('k \<times> 'd) list
     \<Rightarrow> ('it \<times> 'k MapSstElement \<times> nat \<times> ('k \<times> 'd) list) option option" where
  "composite_scan_priority ext ops file_used iter map_element counter priority_heap =
     (if \<not> it_Valid ext iter then Some (Some (iter, map_element, counter, priority_heap))
      else
        (case Decode ext iter map_element of
           (ok, e) \<Rightarrow>
             if \<not> ok then Some None
             else
               (case link_usage file_used (me_link e) 0 0 of
                  None \<Rightarrow>
                    composite_scan_priority ext ops file_used (it_Next ext iter) e counter
                      priority_heap
                | Some (sz, used) \<Rightarrow>
                    if counter = 0 then None
                    else composite_scan_priority ext ops file_used (it_Next ext iter) e
                           (counter - 1)
                           (priority_heap @
                              [(me_largest_key e,
                                element_priority ops (length (me_link e)) sz used)]))))"

text \<open>
  \<^verbatim>\<open>std::make_heap\<close> and \<^verbatim>\<open>std::pop_heap\<close> with \<^verbatim>\<open>std::less<double>\<close>: the front of
  the heap is an item of which no other item has a greater priority. Which one of
  several such items it is depends on the library; the model keeps the items in the
  order of their insertion and takes the first.
\<close>

fun priority_max :: "'d double_ops \<Rightarrow> 'k \<times> 'd \<Rightarrow> ('k \<times> 'd) list \<Rightarrow> 'k \<times> 'd" where
  "priority_max ops best [] = best"
| "priority_max ops best (x # xs) =
     priority_max ops (if d_less ops (snd best) (snd x) then x else best) xs"

definition priority_front :: "'d double_ops \<Rightarrow> ('k \<times> 'd) list \<Rightarrow> 'k \<times> 'd" where
  "priority_front ops h = priority_max ops (hd h) (tl h)"

definition priority_pop :: "'d double_ops \<Rightarrow> ('k \<times> 'd) list \<Rightarrow> ('k \<times> 'd) list" where
  "priority_pop ops h = remove1 (priority_front ops h) h"

text \<open>
  Lines 1645-1663: the range of a popped element is extended forward. \<open>unique_check\<close> is
  the set of the keys pushed by \<^verbatim>\<open>push_unique\<close>, which also moves \<open>counter\<close> down. The
  result \<open>None\<close> stands for no result (\<open>counter\<close> below zero, or no return). The result of
  a \<^verbatim>\<open>Decode\<close> is not read from here on.
\<close>

partial_function (option) composite_extend_forward ::
  "('k, 'it) Collaborators \<Rightarrow> 'k VersionStorageInfo \<Rightarrow> 'k FileMetaData \<Rightarrow> uint64 \<Rightarrow> 'it
     \<Rightarrow> 'k MapSstElement \<Rightarrow> nat \<Rightarrow> 'k list \<Rightarrow> 'k RangeStorage \<Rightarrow> uint64
     \<Rightarrow> ('it \<times> 'k MapSstElement \<times> nat \<times> 'k list \<times> 'k RangeStorage \<times> uint64) option" where
  "composite_extend_forward ext vstorage front max_file_size_for_leval iter map_element
       counter unique_check rng sum_sz =
     (if \<not> sum_sz < max_file_size_for_leval
      then Some (iter, map_element, counter, unique_check, rng, sum_sz)
      else
        (let iter1 = it_Next ext iter in
         if \<not> it_Valid ext iter1
         then Some (iter1, map_element, counter, unique_check,
                    set_include_limit ext front rng, sum_sz)
         else
           (let e = snd (Decode ext iter1 map_element) in
            if it_key ext iter1 \<in> set unique_check \<or>
               (is_perfect ext vstorage e \<and>
                user_Compare ext (ExtractUserKey ext (me_smallest_key e)) (rs_limit rng) \<noteq> 0)
            then Some (iter1, e, counter, unique_check,
                       rng\<lparr> rs_limit := ExtractUserKey ext (me_smallest_key e) \<rparr>, sum_sz)
            else if counter = 0 then None
            else composite_extend_forward ext vstorage front max_file_size_for_leval iter1 e
                   (counter - 1) (it_key ext iter1 # unique_check)
                   (rng\<lparr> rs_limit := ExtractUserKey ext (me_largest_key e) \<rparr>)
                   (sum_sz + estimate_size e))))"

text \<open>Lines 1666-1678, the \<^verbatim>\<open>do\<close> loop that extends the range backward.\<close>

partial_function (option) composite_extend_backward ::
  "('k, 'it) Collaborators \<Rightarrow> 'k VersionStorageInfo \<Rightarrow> uint64 \<Rightarrow> 'it
     \<Rightarrow> 'k MapSstElement \<Rightarrow> nat \<Rightarrow> 'k list \<Rightarrow> 'k RangeStorage \<Rightarrow> uint64
     \<Rightarrow> ('it \<times> 'k MapSstElement \<times> nat \<times> 'k list \<times> 'k RangeStorage \<times> uint64) option" where
  "composite_extend_backward ext vstorage max_file_size_for_leval iter map_element
       counter unique_check rng sum_sz =
     (let iter1 = it_Prev ext iter in
      if \<not> it_Valid ext iter1 \<or> it_key ext iter1 \<in> set unique_check
      then Some (iter1, map_element, counter, unique_check, rng, sum_sz)
      else
        (let e = snd (Decode ext iter1 map_element) in
         if is_perfect ext vstorage e
         then Some (iter1, e, counter, unique_check, rng, sum_sz)
         else if counter = 0 then None
         else if sum_sz + estimate_size e < max_file_size_for_leval
         then composite_extend_backward ext vstorage max_file_size_for_leval iter1 e
                (counter - 1) (it_key ext iter1 # unique_check)
                (rng\<lparr> rs_start := ExtractUserKey ext (me_smallest_key e) \<rparr>)
                (sum_sz + estimate_size e)
         else Some (iter1, e, counter - 1, it_key ext iter1 # unique_check,
                    rng\<lparr> rs_start := ExtractUserKey ext (me_smallest_key e) \<rparr>,
                    sum_sz + estimate_size e)))"

text \<open>
  The loop over the heap, lines 1629-1684. After \<^verbatim>\<open>Seek\<close> the code reads the key of
  the iterator behind an assertion that it is valid; for an iterator that is not, the
  model has no result.
\<close>

partial_function (option) composite_pack ::
  "('k, 'it) Collaborators \<Rightarrow> 'd double_ops \<Rightarrow> Options \<Rightarrow> 'k VersionStorageInfo
     \<Rightarrow> 'k FileMetaData \<Rightarrow> uint64 \<Rightarrow> 'it \<Rightarrow> 'k MapSstElement \<Rightarrow> nat \<Rightarrow> 'k list
     \<Rightarrow> 'k RangeStorage \<Rightarrow> 'k RangeStorage list \<Rightarrow> ('k \<times> 'd) list
     \<Rightarrow> ('it \<times> 'k MapSstElement \<times> 'k RangeStorage \<times> 'k RangeStorage list) option" where
  "composite_pack ext ops opts vstorage front max_file_size_for_leval iter map_element
       counter unique_check rng ranges priority_heap =
     (if priority_heap = [] then Some (iter, map_element, rng, ranges)
      else
        (let key = fst (priority_front ops priority_heap);
             heap1 = priority_pop ops priority_heap;
             iter1 = it_Seek ext key iter
         in
           if \<not> it_Valid ext iter1 then None
           else if it_key ext iter1 \<in> set unique_check
           then composite_pack ext ops opts vstorage front max_file_size_for_leval iter1
                  map_element counter unique_check rng ranges heap1
           else
             (let e = snd (Decode ext iter1 map_element);
                  rng1 = rng\<lparr> rs_start := ExtractUserKey ext (me_smallest_key e),
                                  rs_limit := ExtractUserKey ext (me_largest_key e),
                                  rs_include_start := True, rs_include_limit := False \<rparr>
              in
                if counter = 0 then None
                else
                  (case composite_extend_forward ext vstorage front max_file_size_for_leval
                          iter1 e (counter - 1) (it_key ext iter1 # unique_check) rng1
                          (estimate_size e) of
                     None \<Rightarrow> None
                   | Some (iter2, e2, counter2, unique2, rng2, sum2) \<Rightarrow>
                       (case (if sum2 < max_file_size_for_leval
                              then composite_extend_backward ext vstorage
                                     max_file_size_for_leval (it_SeekForPrev ext key iter2)
                                     e2 counter2 unique2 rng2 sum2
                              else Some (iter2, e2, counter2, unique2, rng2, sum2)) of
                          None \<Rightarrow> None
                        | Some (iter3, e3, counter3, unique3, rng3, sum3) \<Rightarrow>
                            if length (ranges @ [rng3]) \<ge> ioptions_max_subcompactions opts
                            then Some (iter3, e3, rng3, ranges @ [rng3])
                            else composite_pack ext ops opts vstorage front
                                   max_file_size_for_leval iter3 e3 counter3 unique3 rng3
                                   (ranges @ [rng3]) heap1)))))"

text \<open>
  \<^verbatim>\<open>std::sort\<close> of the ranges, lines 1686-1699, with the order of the lambda. The
  model inserts one range after the other.
\<close>

definition range_less ::
  "('k, 'it) Collaborators \<Rightarrow> 'k RangeStorage \<Rightarrow> 'k RangeStorage \<Rightarrow> bool" where
  "range_less ext a b =
     (let r = user_Compare ext (rs_limit a) (rs_limit b);
          r = (if r = 0
               then (if rs_include_limit a then 1 else 0) - (if rs_include_limit b then 1 else 0)
               else r);
          r = (if r = 0 then user_Compare ext (rs_start a) (rs_start b) else r);
          r = (if r = 0
               then (if rs_include_start b then 1 else 0) - (if rs_include_start a then 1 else 0)
               else r)
      in r < 0)"

fun insert_range ::
  "('k, 'it) Collaborators \<Rightarrow> 'k RangeStorage \<Rightarrow> 'k RangeStorage list \<Rightarrow> 'k RangeStorage list" where
  "insert_range ext x [] = [x]"
| "insert_range ext x (y # ys) =
     (if range_less ext x y then x # y # ys else y # insert_range ext x ys)"

definition sort_ranges ::
  "('k, 'it) Collaborators \<Rightarrow> 'k RangeStorage list \<Rightarrow> 'k RangeStorage list" where
  "sort_ranges ext rs = foldr (insert_range ext) rs []"

text \<open>
  The third scan, lines 1704-1731, which joins consecutive elements that are not
  perfect. The assertion on the number of links only checks.
\<close>

partial_function (option) composite_scan_essence ::
  "('k, 'it) Collaborators \<Rightarrow> Options \<Rightarrow> 'k VersionStorageInfo \<Rightarrow> 'it \<Rightarrow> 'k MapSstElement
     \<Rightarrow> bool \<Rightarrow> 'k RangeStorage \<Rightarrow> 'k RangeStorage list
     \<Rightarrow> ('it \<times> 'k MapSstElement \<times> bool \<times> 'k RangeStorage \<times> 'k RangeStorage list) option" where
  "composite_scan_essence ext opts vstorage iter map_element has_start rng ranges =
     (if \<not> it_Valid ext iter then Some (iter, map_element, has_start, rng, ranges)
      else
        (let e = snd (Decode ext iter map_element) in
         if has_start then
           (if is_perfect ext vstorage e \<and>
               user_Compare ext (ExtractUserKey ext (me_smallest_key e)) (rs_limit rng) \<noteq> 0
            then
              (let rng1 = rng\<lparr> rs_limit := ExtractUserKey ext (me_smallest_key e),
                                   rs_include_start := True, rs_include_limit := False \<rparr>
               in if length (ranges @ [rng1]) \<ge> ioptions_max_subcompactions opts
                  then Some (iter, e, False, rng1, ranges @ [rng1])
                  else composite_scan_essence ext opts vstorage (it_Next ext iter) e False
                         rng1 (ranges @ [rng1]))
            else composite_scan_essence ext opts vstorage (it_Next ext iter) e True
                   (rng\<lparr> rs_limit := ExtractUserKey ext (me_largest_key e) \<rparr>) ranges)
         else if is_perfect ext vstorage e
         then composite_scan_essence ext opts vstorage (it_Next ext iter) e False rng ranges
         else composite_scan_essence ext opts vstorage (it_Next ext iter) e True
                (rng\<lparr> rs_start := ExtractUserKey ext (me_smallest_key e),
                        rs_limit := ExtractUserKey ext (me_largest_key e) \<rparr>) ranges))"

text \<open>
  Lines 1476-1746: what the function does with the iterator \<open>iter\<close> once its status was
  found OK. The status is not read again.
\<close>

definition composite_with_iterator ::
  "('k, 'it) Collaborators \<Rightarrow> 'd double_ops \<Rightarrow> nat \<Rightarrow> Options \<Rightarrow> 'k VersionStorageInfo
     \<Rightarrow> 'k CompactionInputFiles \<Rightarrow> 'it \<Rightarrow> 'k Compaction option option" where
  "composite_with_iterator ext ops fuel opts vstorage ins iter =
     (let front = hd (files ins);
          max_subcompactions0 = ioptions_max_subcompactions opts
      in
        case composite_scan_links ext fuel opts vstorage (it_SeekToFirst ext iter)
               (MapSstElement_new ext) 0 Map.empty False (RangeStorage_new ext) [] of
          None \<Rightarrow> None
        | Some None \<Rightarrow> Some None
        | Some (Some (iter1, e1, counter1, file_used, has_start1, rng1, ranges1)) \<Rightarrow>
            (let ranges1a = (if has_start1
                             then ranges1 @ [set_include_limit ext front rng1]
                             else ranges1);
                 rng1a = (if has_start1 then set_include_limit ext front rng1 else rng1)
             in
               if ranges1a \<noteq> []
               then Some (composite_new_compaction ext opts ins kLinkSst max_subcompactions0
                            ranges1a)
               else
                 (case composite_scan_priority ext ops file_used (it_SeekToFirst ext iter1) e1
                         (counter1 * 2) [] of
                    None \<Rightarrow> None
                  | Some None \<Rightarrow> Some None
                  | Some (Some (iter2, e2, counter2, priority_heap)) \<Rightarrow>
                      (case composite_pack ext ops opts vstorage front
                              (MaxFileSizeForLevel ext opts (max 1 (level ins)) * 2)
                              iter2 e2 counter2 [] rng1a ranges1a priority_heap of
                         None \<Rightarrow> None
                       | Some (iter3, e3, rng3, ranges3) \<Rightarrow>
                           if ranges3 \<noteq> []
                           then Some (composite_new_compaction ext opts ins kEssenceSst
                                        max_subcompactions0 (sort_ranges ext ranges3))
                           else
                             (case composite_scan_essence ext opts vstorage
                                     (it_SeekToFirst ext iter3) e3 False rng3 ranges3 of
                                None \<Rightarrow> None
                              | Some (iter4, e4, has_start4, rng4, ranges4) \<Rightarrow>
                                  (let ranges4a =
                                         (if has_start4
                                          then ranges4 @
                                                 [set_include_limit ext front
                                                    (rng4\<lparr> rs_include_start := True \<rparr>)]
                                          else ranges4)
                                   in
                                     if ranges4a \<noteq> []
                                     then Some (composite_new_compaction ext opts ins
                                                  kEssenceSst max_subcompactions0 ranges4a)
                                     else if level ins \<noteq> 0
                                     then Some (composite_new_compaction ext opts ins kMapSst 1
                                                  ranges4a)
                                     else Some None))))))"

text \<open>
  The strategy. The status of the iterator is read once, right after the iterator was
  opened (line 1471). As for the other strategies, a failed assertion in \<open>GetPathId\<close>
  gives no plan.
\<close>

definition PickCompositeCompaction ::
  "('k, 'it) Collaborators \<Rightarrow> 'd double_ops \<Rightarrow> nat \<Rightarrow> Options \<Rightarrow> 'k VersionStorageInfo
     \<Rightarrow> 'k SortedRun list \<Rightarrow> 'k Compaction option option" where
  "PickCompositeCompaction ext ops fuel opts vstorage sorted_runs =
     (if \<not> has_space_amplification vstorage then Some None
      else
        (case composite_target ext vstorage (rev sorted_runs) None 0 of
           None \<Rightarrow> Some None
         | Some ins \<Rightarrow>
             (case files ins of
                [] \<Rightarrow>
                  Some (composite_new_compaction ext opts
                          (ins\<lparr> files := LevelFiles vstorage (level ins) \<rparr>) kMapSst 1 [])
              | f # fs \<Rightarrow>
                  (let iter = NewIterator ext f (level ins) in
                   if \<not> it_status_ok ext iter then Some None
                   else composite_with_iterator ext ops fuel opts vstorage ins iter))))"

subsection \<open>\<^verbatim>\<open>PickRangeCompaction\<close> (lines 1749-1918)\<close>






subsection \<open>\<^verbatim>\<open>PickCompactionToReduceSortedRuns\<close> (lines 1924-2062)\<close>

text \<open>
  Lines 1950-1954: the runs of one group are tagged \<^verbatim>\<open>wait_reduce\<close>, and
  \<^verbatim>\<open>being_compacted\<close> collects whether one of them is being compacted. An index
  outside the vector gives \<open>None\<close>.
\<close>

function tag_group ::
  "'k SortedRun list \<Rightarrow> nat \<Rightarrow> nat \<Rightarrow> bool \<Rightarrow> ('k SortedRun list \<times> bool) option" where
  "tag_group sorted_runs sr_i sr_end compacted =
     (if sr_i < sr_end then
        (if sr_i < length sorted_runs then
           tag_group (sorted_runs[sr_i := (sorted_runs ! sr_i)\<lparr> sr_wait_reduce := True \<rparr>])
             (sr_i + 1) sr_end (compacted \<or> sr_being_compacted (sorted_runs ! sr_i))
         else None)
      else Some (sorted_runs, compacted))"
  by pat_completeness auto
termination
  by (relation "measure (\<lambda>(sorted_runs, sr_i, sr_end, compacted). sr_end - sr_i)") auto

declare tag_group.simps [simp del]

text \<open>Lines 1946-1977: the loop over the groups, with \<open>start_index\<close> and \<open>end_index\<close>.\<close>

fun choose_group ::
  "'d SortedRunGroup list \<Rightarrow> 'k SortedRun list \<Rightarrow> nat \<Rightarrow> nat
     \<Rightarrow> ('k SortedRun list \<times> nat \<times> nat) option" where
  "choose_group [] sorted_runs start_index end_index = Some (sorted_runs, start_index, end_index)"
| "choose_group (g # gs) sorted_runs start_index end_index =
     (case (if grp_count g > 1
            then tag_group sorted_runs (grp_start g) (grp_start g + grp_count g) False
            else Some (sorted_runs, False)) of
        None \<Rightarrow> None
      | Some (sorted_runs1, compacted) \<Rightarrow>
          if end_index \<noteq> 0 then choose_group gs sorted_runs1 start_index end_index
          else if grp_count g = 1 then choose_group gs sorted_runs1 start_index end_index
          else if compacted then choose_group gs sorted_runs1 start_index end_index
          else choose_group gs sorted_runs1 (grp_start g) (grp_start g + grp_count g))"

text \<open>
  Lines 2030-2038: a level-0 run adds its file to \<^verbatim>\<open>inputs[0]\<close>, a deeper run sets the
  files of \<^verbatim>\<open>inputs[level - start_level]\<close>. The vector has \<open>end_index - start_index\<close>
  entries here; an index outside it gives \<open>None\<close>.
\<close>

fun pick_group_runs ::
  "'k VersionStorageInfo \<Rightarrow> nat \<Rightarrow> 'k SortedRun list \<Rightarrow> 'k CompactionInputFiles list
     \<Rightarrow> 'k CompactionInputFiles list option" where
  "pick_group_runs vstorage from_level [] ins = Some ins"
| "pick_group_runs vstorage from_level (picking_sr # rest) ins =
     (if sr_level picking_sr = 0 then
        (case sr_file picking_sr of
           Some f \<Rightarrow>
             if ins = [] then None
             else pick_group_runs vstorage from_level rest (push_files ins 0 [f])
         | None \<Rightarrow> None)
      else if sr_level picking_sr < from_level \<or> sr_level picking_sr - from_level \<ge> length ins
      then None
      else pick_group_runs vstorage from_level rest
             (ins[sr_level picking_sr - from_level :=
                    (ins ! (sr_level picking_sr - from_level))
                      \<lparr> files := LevelFiles vstorage (sr_level picking_sr) \<rparr>]))"

text \<open>
  The function returns the plan and the sorted runs with their tags. A result \<open>None\<close>
  stands for an access outside a vector or a failed assertion.
\<close>

definition PickCompactionToReduceSortedRuns ::
  "'d double_ops \<Rightarrow> Options \<Rightarrow> 'k VersionStorageInfo \<Rightarrow> 'k SortedRun list \<Rightarrow> nat
     \<Rightarrow> ('k Compaction option \<times> 'k SortedRun list) option" where
  "PickCompactionToReduceSortedRuns ops opts vstorage sorted_runs reduce_sorted_run_target =
     (let target = (if reduce_sorted_run_target = 0 then length sorted_runs
                    else reduce_sorted_run_target);
          base_size = d_of_nat ops (unat (write_buffer_size opts));
          sorted_run_ratio =
            map (\<lambda>sr. d_div ops (d_of_nat ops (unat (sr_size sr))) base_size) sorted_runs
      in case GenSortedRunGroup ops sorted_run_ratio target [] of
           None \<Rightarrow> None
         | Some (common_ratio, groups) \<Rightarrow>
             (case choose_group groups sorted_runs 0 0 of
                None \<Rightarrow> None
              | Some (sorted_runs1, start_index, end_index) \<Rightarrow>
                  if end_index = 0 then Some (None, sorted_runs1)
                  else if start_index \<ge> length sorted_runs1 \<or> end_index > length sorted_runs1
                  then None
                  else
                    (let estimated_total_size =
                           sum_list (map sr_size
                             (take (end_index - start_index) (drop start_index sorted_runs1)));
                         from_level = sr_level (sorted_runs1 ! start_index);
                         out_level =
                           (if end_index = length sorted_runs1
                            then int (num_levels vstorage) - 1
                            else if sr_level (sorted_runs1 ! end_index) = 0 then 0
                            else int (sr_level (sorted_runs1 ! end_index)) - 1);
                         out_level =
                           (if allow_ingest_behind opts \<and>
                               out_level = int (num_levels vstorage) - 1
                            then out_level - 1 else out_level)
                     in case pick_group_runs vstorage from_level
                               (take (end_index - start_index) (drop start_index sorted_runs1))
                               (new_inputs (end_index - start_index) from_level) of
                          None \<Rightarrow> None
                        | Some ins \<Rightarrow>
                            (case GetPathId (cf_paths opts) (size_ratio opts)
                                    estimated_total_size of
                               None \<Rightarrow> None
                             | Some path_id \<Rightarrow>
                                 Some (Some \<lparr> inputs = ins, output_level = out_level,
                                              output_path_id = path_id, max_subcompactions = 1,
                                              manual_compaction = False,
                                              partial_compaction = False,
                                              compaction_purpose = kMapSst,
                                              compaction_reason = kUniversalSortedRunNum,
                                              is_trivial_move = False, input_range = [] \<rparr>,
                                       sorted_runs1)))))"

subsection \<open>\<^verbatim>\<open>PickCompaction\<close> (lines 287-518)\<close>

text \<open>
  Modelled from the spec: \<^verbatim>\<open>RegisterCompaction\<close> is a function of the base class
  \<^verbatim>\<open>CompactionPicker\<close>, which is not part of this file. The specification describes
  the picker state as the set of plans in flight plus the subset restricted to those
  that touch level 0, and registration as entering the plan.
\<close>

definition RegisterCompaction :: "'k PickerState \<Rightarrow> 'k Compaction \<Rightarrow> 'k PickerState" where
  "RegisterCompaction st c =
     \<lparr> compactions_in_progress = c # compactions_in_progress st,
       level0_compactions_in_progress =
         (if list_ex (\<lambda>ins. level ins = 0) (inputs c) \<or> output_level c = 0
          then c # level0_compactions_in_progress st
          else level0_compactions_in_progress st) \<rparr>"

text \<open>\<^verbatim>\<open>size_t(-1)\<close>.\<close>

definition SIZE_MAX :: nat where
  "SIZE_MAX = 2 ^ 64 - 1"

text \<open>
  Lines 336-365: the loop that adds up the read amplification of the sorted runs. The
  result tells whether the loop left through \<^verbatim>\<open>break\<close> (with
  \<^verbatim>\<open>reduce_sorted_run_target = size_t(-1)\<close>) and gives \<^verbatim>\<open>level_read_amp_count\<close>.
\<close>

fun read_amp_count ::
  "('k, 'it) Collaborators \<Rightarrow> 'k VersionStorageInfo \<Rightarrow> 'k SortedRun list \<Rightarrow> nat \<Rightarrow> bool \<times> nat" where
  "read_amp_count ext vstorage [] level_read_amp_count = (False, level_read_amp_count)"
| "read_amp_count ext vstorage (sr # rest) level_read_amp_count =
     (let add = (\<lambda>f.
            case GetSstReadAmp ext f of
              None \<Rightarrow> read_amp_count ext vstorage rest level_read_amp_count
            | Some read_amp \<Rightarrow>
                read_amp_count ext vstorage rest
                  (if read_amp > 1 then level_read_amp_count + read_amp
                   else level_read_amp_count))
      in
        if sr_level sr > 0 then
          (if \<not> has_space_amplification_at vstorage (sr_level sr)
           then read_amp_count ext vstorage rest level_read_amp_count
           else if length (LevelFiles vstorage (sr_level sr)) > 1
           then (True, level_read_amp_count)
           else
             (case LevelFiles vstorage (sr_level sr) of
                [] \<Rightarrow> read_amp_count ext vstorage rest level_read_amp_count
              | f # fs \<Rightarrow> add f))
        else
          (case sr_file sr of
             None \<Rightarrow> read_amp_count ext vstorage rest level_read_amp_count
           | Some f \<Rightarrow>
               if sst_purpose f \<noteq> kMapSst
               then read_amp_count ext vstorage rest level_read_amp_count
               else add f))"

text \<open>
  Lines 318-379, the branch for lazy compaction. It returns the plan and the sorted runs,
  which \<^verbatim>\<open>PickCompactionToReduceSortedRuns\<close> may have tagged.
\<close>

definition pick_lazy ::
  "'d double_ops \<Rightarrow> ('k, 'it) Collaborators \<Rightarrow> Options \<Rightarrow> 'k PickerState \<Rightarrow> 'k VersionStorageInfo
     \<Rightarrow> 'k SortedRun list \<Rightarrow> ('k Compaction option \<times> 'k SortedRun list) option" where
  "pick_lazy ops ext opts st vstorage sorted_runs =
     (let trigger = level0_file_num_compaction_trigger opts;
          has_map_compaction =
            list_ex (\<lambda>cip. compaction_purpose cip = kMapSst) (compactions_in_progress st);
          target0 = nat ((trigger + ioptions_num_levels opts - 1) mod 2 ^ 64);
          moved = (if has_map_compaction then None
                   else PickTrivialMoveCompaction ext opts st vstorage);
          target =
            (if has_map_compaction then SIZE_MAX
             else
               (case moved of
                  Some c \<Rightarrow> SIZE_MAX
                | None \<Rightarrow>
                    if table_cache opts \<and> length sorted_runs > 1 \<and>
                       length sorted_runs \<le> target0
                    then
                      (case read_amp_count ext vstorage sorted_runs 0 of
                         (broke, level_read_amp_count) \<Rightarrow>
                           (let target1 = (if broke then SIZE_MAX else target0) in
                            if level_read_amp_count < target1
                            then max (nat (trigger mod 2 ^ 64)) (length sorted_runs - 1)
                            else target1))
                    else target0))
      in if length sorted_runs > target
         then PickCompactionToReduceSortedRuns ops opts vstorage sorted_runs target
         else Some (moved, sorted_runs))"

text \<open>Lines 380-430, the branch without lazy compaction.\<close>

definition pick_eager ::
  "'d double_ops \<Rightarrow> Options \<Rightarrow> 'k VersionStorageInfo \<Rightarrow> 'k SortedRun list
     \<Rightarrow> 'k Compaction option" where
  "pick_eager ops opts vstorage sorted_runs =
     (case PickCompactionToReduceSizeAmp opts vstorage sorted_runs of
        Some c \<Rightarrow> Some c
      | None \<Rightarrow>
          (case PickCompactionToReduceSortedRunsOld ops opts vstorage (size_ratio opts)
                  4294967295 sorted_runs of
             Some c \<Rightarrow> Some c
           | None \<Rightarrow>
               (let num_sr_not_compacted =
                      int (length (filter (\<lambda>sr. sr_being_compacted sr = False) sorted_runs))
                in if num_sr_not_compacted > level0_file_num_compaction_trigger opts
                   then
                     (let num_files =
                            (word_of_int (num_sr_not_compacted
                               - level0_file_num_compaction_trigger opts + 1) :: uint32)
                      in PickCompactionToReduceSortedRunsOld ops opts vstorage 4294967295
                           num_files sorted_runs)
                   else None)))"

text \<open>
  Lines 312-445: the strategies in their order. The outer \<open>None\<close> says that the call does
  not return a result (an access outside a vector, a failed assertion, a scan of
  \<open>PickCompositeCompaction\<close> that does not end).
\<close>

definition pick_by_strategies ::
  "nat \<Rightarrow> 'd double_ops \<Rightarrow> ('k, 'it) Collaborators \<Rightarrow> Options \<Rightarrow> 'k PickerState
     \<Rightarrow> 'k VersionStorageInfo \<Rightarrow> 'k SortedRun list \<Rightarrow> 'k Compaction option option" where
  "pick_by_strategies fuel ops ext opts st vstorage sorted_runs =
     (case (if has_space_amplification vstorage \<or>
               length sorted_runs \<ge> nat (level0_file_num_compaction_trigger opts mod 2 ^ 64)
            then (if enable_lazy_compaction opts
                  then pick_lazy ops ext opts st vstorage sorted_runs
                  else Some (pick_eager ops opts vstorage sorted_runs, sorted_runs))
            else Some (None, sorted_runs)) of
        None \<Rightarrow> None
      | Some (c1, sorted_runs1) \<Rightarrow>
          (case (case c1 of
                   None \<Rightarrow>
                     if table_cache opts
                     then PickCompositeCompaction ext ops fuel opts vstorage sorted_runs1
                     else Some None
                 | Some c \<Rightarrow> Some (Some c)) of
             None \<Rightarrow> None
           | Some c2 \<Rightarrow>
               Some (case c2 of
                       None \<Rightarrow> PickDeleteTriggeredCompaction ext opts st vstorage
                     | Some c \<Rightarrow> Some c)))"

text \<open>Lines 453-469: the trivial-move flag of the chosen plan.\<close>

definition set_trivial_move ::
  "Options \<Rightarrow> ('k::linorder) VersionStorageInfo \<Rightarrow> 'k Compaction \<Rightarrow> 'k Compaction" where
  "set_trivial_move opts vstorage c =
     (let allowed = allow_trivial_move opts;
          allowed =
            (if compaction_reason c \<noteq> kTrivialMoveLevel \<and> allowed
             then (if list_ex (\<lambda>ins. has_space_amplification_at vstorage (level ins)) (inputs c)
                   then False else allowed)
             else allowed)
      in if allowed then c\<lparr> is_trivial_move := IsInputFilesNonOverlapping c \<rparr> else c)"

text \<open>
  The result is \<open>None\<close> when the call does not return a result (\<^verbatim>\<open>GetFilesSize\<close> out of
  fuel, or as for \<open>pick_by_strategies\<close>); otherwise it is the returned plan, or \<open>None\<close> for
  \<^verbatim>\<open>nullptr\<close>, together with the picker state after the call. The compaction score of
  the version and the statistics, which the function updates before it returns a plan,
  are not part of the model.
\<close>

definition PickCompaction ::
  "nat \<Rightarrow> 'd double_ops \<Rightarrow> ('k::linorder, 'it) Collaborators \<Rightarrow> Options \<Rightarrow> 'k PickerState
     \<Rightarrow> 'k VersionStorageInfo \<Rightarrow> ('k Compaction option \<times> 'k PickerState) option" where
  "PickCompaction fuel ops ext opts st vstorage =
     (case CalculateSortedRuns fuel vstorage opts of
        None \<Rightarrow> None
      | Some sorted_runs \<Rightarrow>
          if sorted_runs = [] \<or>
             (FilesMarkedForCompaction vstorage = [] \<and>
              \<not> has_space_amplification vstorage \<and>
              length sorted_runs < nat (level0_file_num_compaction_trigger opts mod 2 ^ 32))
          then Some (None, st)
          else
            (case pick_by_strategies fuel ops ext opts st vstorage sorted_runs of
               None \<Rightarrow> None
             | Some None \<Rightarrow> Some (None, st)
             | Some (Some c0) \<Rightarrow>
                 (let c = set_trivial_move opts vstorage c0
                  in Some (Some c, RegisterCompaction st c))))"

subsection \<open>Concrete inputs\<close>

text \<open>
  Small inputs on which the model is evaluated: files with keys in \<open>nat\<close>, the level-0
  sorted run of a file as \<^verbatim>\<open>CalculateSortedRuns\<close> builds it, and a set of options
  (the defaults of universal compaction, one storage path).
\<close>

definition ex_file :: "nat \<Rightarrow> uint64 \<Rightarrow> bool \<Rightarrow> bool \<Rightarrow> nat FileMetaData" where
  "ex_file n sz bc marked =
     \<lparr> fd_number = n, fd_file_size = sz, fd_path_id = 0, compensated_file_size = sz,
       smallest = 10 * n, largest = 10 * n + 5, being_compacted = bc,
       marked_for_compaction = marked, sst_purpose = kEssenceSst, sst_depend = [] \<rparr>"

definition ex_run :: "nat FileMetaData \<Rightarrow> nat SortedRun" where
  "ex_run f =
     \<lparr> sr_level = 0, sr_file = Some f, sr_size = fd_file_size f,
       sr_compensated_file_size = compensated_file_size f,
       sr_being_compacted = being_compacted f, sr_wait_reduce = False \<rparr>"

definition ex_vstorage :: "nat FileMetaData list \<Rightarrow> nat VersionStorageInfo" where
  "ex_vstorage l0 =
     \<lparr> level_files = [l0],
       FilesMarkedForCompaction =
         map (Pair 0) (filter (\<lambda>f. marked_for_compaction f \<and> \<not> being_compacted f) l0),
       space_amplification_levels = [],
       depend_files = (\<lambda>n. None) \<rparr>"

definition ex_options :: Options where
  "ex_options =
     \<lparr> ioptions_num_levels = 1, allow_ingest_behind = False, cf_paths = [1000],
       ioptions_max_subcompactions = 1, level0_file_num_compaction_trigger = 4,
       enable_lazy_compaction = False, write_buffer_size = 64, size_ratio = 1,
       min_merge_width = 2, max_merge_width = 4294967295,
       max_size_amplification_percent = 200,
       stop_style = kCompactionStopStyleTotalSize, allow_trivial_move = False,
       table_cache = False, max_compaction_bytes = 1000 \<rparr>"

text \<open>Level 0 with the two newest files being compacted.\<close>

definition ex_l0_leading_compacted :: "nat FileMetaData list" where
  "ex_l0_leading_compacted =
     [ex_file 4 10 True False, ex_file 3 10 True False,
      ex_file 2 30 False False, ex_file 1 10 False False]"

text \<open>
  An iterator for the examples: it walks a list of keys with their map elements, of
  which only the first \<open>ex_readable\<close> can be read. A move to an entry behind them fails:
  the iterator is not valid any more and its status is not OK, and so it stays.
\<close>

record ex_iterator =
  ex_entries :: "(nat \<times> nat MapSstElement) list"
  ex_readable :: nat
  ex_pos :: "nat option"
  ex_status_ok :: bool

definition ex_move :: "ex_iterator \<Rightarrow> nat \<Rightarrow> ex_iterator" where
  "ex_move it i =
     (if \<not> ex_status_ok it \<or> i \<ge> length (ex_entries it) then it\<lparr> ex_pos := None \<rparr>
      else if i \<ge> ex_readable it then it\<lparr> ex_pos := None, ex_status_ok := False \<rparr>
      else it\<lparr> ex_pos := Some i \<rparr>)"

definition ex_open :: "(nat \<times> nat MapSstElement) list \<Rightarrow> nat \<Rightarrow> bool \<Rightarrow> ex_iterator" where
  "ex_open entries readable ok =
     \<lparr> ex_entries = entries, ex_readable = readable, ex_pos = None, ex_status_ok = ok \<rparr>"

text \<open>
  Collaborators that select nothing and whose iterators fail to open, and the picker
  state with no compaction in flight.
\<close>

definition ex_collaborators :: "(nat, ex_iterator) Collaborators" where
  "ex_collaborators =
     \<lparr> PickFilesMarkedForCompaction = (\<lambda>st vstorage. (0, \<lparr> level = 0, files = [] \<rparr>)),
       GetOverlappingL0Files = (\<lambda>st vstorage start_inputs out_level. None),
       SetupOtherInputs = (\<lambda>st vstorage start_inputs output_inputs. None),
       FilesRangeOverlapWithCompaction = (\<lambda>st ins out_level. False),
       AreFilesInCompaction = (\<lambda>fs. list_ex being_compacted fs),
       GetSstReadAmp = (\<lambda>f. None),
       MaxFileSizeForLevel = (\<lambda>opts l. 100),
       IsPrefaceRange = (\<lambda>e f. me_smallest_key e = smallest f \<and> me_largest_key e = largest f),
       EstimateSize = (\<lambda>e. sum_list (map link_size (me_link e))),
       user_Compare = (\<lambda>a b. if a < b then - 1 else if a = b then 0 else 1),
       ExtractUserKey = (\<lambda>k. k),
       RangeStorage_new =
         \<lparr> rs_start = 0, rs_limit = 0, rs_include_start = True, rs_include_limit = False \<rparr>,
       MapSstElement_new =
         \<lparr> me_smallest_key = 0, me_largest_key = 0, me_include_smallest = False,
           me_include_largest = False, me_link = [] \<rparr>,
       NewIterator = (\<lambda>f l. ex_open [] 0 False),
       NewMapElementIterator = (\<lambda>fs. ex_open [] 0 False),
       it_status_ok = ex_status_ok,
       it_Valid = (\<lambda>it. ex_pos it \<noteq> None),
       it_key = (\<lambda>it. fst (ex_entries it ! the (ex_pos it))),
       it_SeekToFirst = (\<lambda>it. ex_move it 0),
       it_Seek = (\<lambda>k it. ex_move it (length (takeWhile (\<lambda>x. fst x < k) (ex_entries it)))),
       it_SeekForPrev =
         (\<lambda>k it. case length (takeWhile (\<lambda>x. fst x \<le> k) (ex_entries it)) of
                    0 \<Rightarrow> it\<lparr> ex_pos := None \<rparr>
                  | Suc i \<Rightarrow> ex_move it i),
       it_Next = (\<lambda>it. case ex_pos it of None \<Rightarrow> it | Some i \<Rightarrow> ex_move it (i + 1)),
       it_Prev =
         (\<lambda>it. case ex_pos it of
                  None \<Rightarrow> it
                | Some 0 \<Rightarrow> it\<lparr> ex_pos := None \<rparr>
                | Some (Suc i) \<Rightarrow> ex_move it i),
       Decode =
         (\<lambda>it e. case ex_pos it of
                    None \<Rightarrow> (False, e)
                  | Some i \<Rightarrow> (True, snd (ex_entries it ! i))) \<rparr>"

definition ex_state :: "nat PickerState" where
  "ex_state = \<lparr> compactions_in_progress = [], level0_compactions_in_progress = [] \<rparr>"

text \<open>Level 0 with three files, newest first, of which the middle one is marked.\<close>

definition ex_l0_middle_marked :: "nat FileMetaData list" where
  "ex_l0_middle_marked =
     [ex_file 3 10 False False, ex_file 2 10 False True, ex_file 1 10 False False]"

text \<open>
  Level 0 with two files of size 10, the older one being compacted; with three files of
  size 10; and with a file of size 10 and compensated size 100 before a file of size 50.
\<close>

definition ex_l0_second_compacted :: "nat FileMetaData list" where
  "ex_l0_second_compacted = [ex_file 2 10 False False, ex_file 1 10 True False]"

definition ex_l0_three_equal :: "nat FileMetaData list" where
  "ex_l0_three_equal =
     [ex_file 3 10 False False, ex_file 2 10 False False, ex_file 1 10 False False]"

definition ex_l0_compensated :: "nat FileMetaData list" where
  "ex_l0_compensated =
     [(ex_file 2 10 False False)\<lparr> compensated_file_size := 100 \<rparr>, ex_file 1 50 False False]"



text \<open>
  Level 0 of a single-level engine: the newest file is marked for compaction, the two
  older files are inputs of a compaction in flight.
\<close>

definition ex_l0_marked_then_compacted :: "nat FileMetaData list" where
  "ex_l0_marked_then_compacted =
     [ex_file 3 10 False True, ex_file 2 10 True False, ex_file 1 10 True False]"








section \<open>Verification\<close>

subsection \<open>Path selection\<close>

lemma GetPathId_loop_first_fit:
  "p \<le> length paths - 1 \<Longrightarrow> acc = sum_list (take p paths) \<Longrightarrow>
   fut = f * ucast (100 - r) div 100 \<Longrightarrow>
   \<forall>q<p. \<not> wrapped_path_fits paths r f q \<Longrightarrow>
   GetPathId_loop paths f fut p acc = wrapped_first_fit paths r f"
proof (induction paths f fut p acc rule: GetPathId_loop.induct)
  case (1 paths file_size future_size p accumulated_size)
  show ?case
  proof (cases "p < length paths - 1")
    case False
    with 1(2) have pe: "p = length paths - 1" by simp
    with 1(5) have "\<not> (\<exists>q < length paths - 1. wrapped_path_fits paths r file_size q)"
      by simp
    then have "wrapped_first_fit paths r file_size = length paths - 1"
      unfolding wrapped_first_fit_def by auto
    moreover have "GetPathId_loop paths file_size future_size p accumulated_size = p"
      using False by (subst GetPathId_loop.simps) simp
    ultimately show ?thesis using pe by simp
  next
    case True
    show ?thesis
    proof (cases "wrapped_path_fits paths r file_size p")
      case fit: True
      have "(LEAST q. q < length paths - 1 \<and> wrapped_path_fits paths r file_size q) = p"
        using True fit 1(5) by (intro Least_equality) (auto simp: not_less[symmetric])
      then have "wrapped_first_fit paths r file_size = p"
        unfolding wrapped_first_fit_def using True fit by auto
      moreover have "GetPathId_loop paths file_size future_size p accumulated_size = p"
        using True fit 1(3,4)
        by (subst GetPathId_loop.simps) (simp add: wrapped_path_fits_def Let_def)
      ultimately show ?thesis by simp
    next
      case nofit: False
      have step: "GetPathId_loop paths file_size future_size p accumulated_size =
            GetPathId_loop paths file_size future_size (p + 1)
              (accumulated_size + paths ! p)"
        using True nofit 1(3,4)
        by (subst GetPathId_loop.simps) (auto simp add: wrapped_path_fits_def Let_def)
      have acc': "accumulated_size + paths ! p = sum_list (take (p + 1) paths)"
        using True 1(3) by (simp add: take_Suc_conv_app_nth)
      have nf: "\<forall>q<p + 1. \<not> wrapped_path_fits paths r file_size q"
        using nofit 1(5) by (auto simp: less_Suc_eq)
      have "\<not> (file_size < paths ! p \<and>
               future_size < accumulated_size + (paths ! p - file_size))"
        using nofit 1(3,4) by (simp add: wrapped_path_fits_def)
      from 1(1)[OF True refl this _ acc' 1(4) nf] True
      show ?thesis using step by simp
    qed
  qed
qed

lemma GetPathId_eq_first_fit:
  assumes "paths \<noteq> []"
  shows "GetPathId paths r f = Some (wrapped_first_fit paths r f)"
proof -
  have "GetPathId_loop paths f (f * ucast (100 - r) div 100) 0 0 =
          wrapped_first_fit paths r f"
    by (rule GetPathId_loop_first_fit) simp_all
  then show ?thesis
    using assms by (simp only: GetPathId_def if_False)
qed

lemma future_size_le:
  fixes f :: uint64 and r :: uint32
  assumes "r \<le> 100"
  shows "f * ucast (100 - r) div 100 \<le> f"
proof -
  have c: "unat (100 - r) \<le> 100"
    using assms by (simp add: unat_sub word_le_nat_alt)
  have uc: "unat (ucast (100 - r) :: uint64) = unat (100 - r)"
    by (simp add: unsigned_ucast_eq take_bit_nat_eq_self_iff[THEN iffD2] order_less_le_trans[OF unsigned_less])
  have "unat (f * ucast (100 - r) div 100) = ((unat f * unat (100 - r)) mod 2 ^ 64) div 100"
    by (simp add: unat_div unat_word_ariths uc)
  also have "\<dots> \<le> (unat f * unat (100 - r)) div 100"
    by (rule div_le_mono) simp
  also have "\<dots> \<le> (unat f * 100) div 100"
    using c by (intro div_le_mono mult_le_mono2)
  finally show ?thesis by (simp add: word_le_nat_alt)
qed

lemma unat_sum_list_le:
  "unat (sum_list (xs :: uint64 list)) \<le> sum_list (map unat xs)"
proof (induction xs)
  case Nil show ?case by simp
next
  case (Cons x xs)
  have "unat (x + sum_list xs) \<le> unat x + unat (sum_list xs)"
    by (simp add: unat_word_ariths)
  with Cons show ?case by simp
qed

lemma prefix_targets_bound:
  assumes "p < length paths - 1"
  shows "sum_list (map unat (take p paths)) + unat (paths ! p)
         \<le> sum_list (map unat (butlast paths))"
proof -
  have "take (Suc p) (butlast paths) = take p paths @ [paths ! p]"
    using assms by (simp add: take_butlast take_Suc_conv_app_nth)
  then have "sum_list (map unat (take p paths)) + unat (paths ! p)
        = sum_list (map unat (take (Suc p) (butlast paths)))"
    by simp
  also have "\<dots> \<le> sum_list (map unat (take (Suc p) (butlast paths))) + sum_list (map unat (drop (Suc p) (butlast paths)))"
    by simp
  also have "\<dots> = sum_list (map unat (butlast paths))"
    by (metis append_take_drop_id map_append sum_list_append)
  finally show ?thesis .
qed

lemma wrapped_path_fits_double:
  assumes r: "r \<le> 100"
    and f2: "2 * unat f < 2 ^ 64"
    and tot: "sum_list (map unat (butlast paths)) < 2 ^ 64"
    and p: "p < length paths - 1"
    and fit: "wrapped_path_fits paths r (2 * f) p"
  shows "wrapped_path_fits paths r f p"
proof -
  define t where "t = paths ! p"
  define A where "A = sum_list (take p paths)"
  have "unat (2 :: uint64) * unat f < 2 ^ LENGTH(64)"
    using f2 by simp
  then have "unat (2 * f) = unat (2 :: uint64) * unat f"
    by (simp only: unat_mult_lem)
  then have u2: "unat (2 * f) = 2 * unat f"
    by simp
  have "2 * f < t"
    using fit by (simp add: wrapped_path_fits_def t_def)
  then have t2: "2 * unat f < unat t"
    using u2 by (simp only: word_less_nat_alt)
  have bound: "unat A + unat t < 2 ^ 64"
    using prefix_targets_bound[OF p] unat_sum_list_le[of "take p paths"] tot
    unfolding A_def t_def by linarith
  have le2: "2 * f \<le> t" and le1: "f \<le> t"
    using t2 u2 by (simp_all only: word_le_nat_alt)
  have s1: "unat (t - f) = unat t - unat f"
    by (rule unat_sub[OF le1])
  have "unat A + unat (t - f) < 2 ^ LENGTH(64)"
    using bound s1 by simp
  then have a1: "unat (A + (t - f)) = unat A + unat (t - f)"
    by (simp only: unat_add_lem)
  have "unat (f * ucast (100 - r) div 100) \<le> unat f"
    using future_size_le[OF r, of f] by (simp only: word_le_nat_alt)
  also have "\<dots> < unat A + (unat t - unat f)"
    using t2 by linarith
  finally have "unat (f * ucast (100 - r) div 100) < unat (A + (t - f))"
    by (simp only: a1 s1)
  then have "f * ucast (100 - r) div 100 < A + (t - f)"
    by (simp only: word_less_nat_alt)
  moreover have "f < t"
    using t2 by (simp add: word_less_nat_alt)
  ultimately show ?thesis by (simp add: wrapped_path_fits_def t_def A_def)
qed


text \<open>
  Claim C7 as stated fails on the 64-bit arithmetic of the code: with targets
  \<open>[150, 2^64 - 50, 7]\<close> and \<open>size_ratio = 10\<close>, the sum \<open>150 + (target_1 - 100)\<close>
  wraps around to \<open>0\<close>, so size 100 is sent to path 2 while size 200 is sent to path 1.
\<close>

theorem GetPathId_double_counterexample:
  "GetPathId [150, 18446744073709551566, 7] 10 100 = Some 2 \<and>
   GetPathId [150, 18446744073709551566, 7] 10 (2 * 100) = Some 1 \<and>
   \<not> the (GetPathId [150, 18446744073709551566, 7] 10 (2 * 100))
       \<ge> the (GetPathId [150, 18446744073709551566, 7] 10 100)"
  by (simp add: GetPathId_def GetPathId_loop.simps)

text \<open>
  Claim C7, amended. When \<open>size_ratio\<close> is at most 100, \<open>2 * f\<close> fits in 64 bits and the
  targets of all paths but the last sum to less than \<open>2^64\<close>, doubling the estimated size
  never selects an earlier path.
\<close>

theorem GetPathId_double_monotone:
  assumes ne: "paths \<noteq> []"
    and r: "ratio \<le> 100"
    and f2: "2 * unat f < 2 ^ 64"
    and tot: "sum_list (map unat (butlast paths)) < 2 ^ 64"
  shows "\<exists>a b. GetPathId paths ratio f = Some a \<and>
               GetPathId paths ratio (2 * f) = Some b \<and> a \<le> b"
proof -
  define n where "n = length paths - 1"
  define P where "P = (\<lambda>g q. q < n \<and> wrapped_path_fits paths ratio g q)"
  define res where "res = (\<lambda>g. if \<exists>q. P g q then (LEAST q. P g q) else n)"
  have mono: "P f q" if "P (2 * f) q" for q
    using that wrapped_path_fits_double[OF r f2 tot, of q] unfolding P_def n_def by blast
  have le_n: "res g \<le> n" for g
  proof (cases "\<exists>q. P g q")
    case True
    then have "P g (LEAST q. P g q)" by (rule LeastI_ex)
    then have "(LEAST q. P g q) < n" unfolding P_def by (rule conjunct1)
    then show ?thesis using True unfolding res_def by auto
  next
    case False
    then show ?thesis unfolding res_def by auto
  qed
  have "res f \<le> res (2 * f)"
  proof (cases "\<exists>q. P (2 * f) q")
    case True
    then have "P (2 * f) (LEAST q. P (2 * f) q)" by (rule LeastI_ex)
    then have pf: "P f (LEAST q. P (2 * f) q)" by (rule mono)
    then have "(LEAST q. P f q) \<le> (LEAST q. P (2 * f) q)" by (rule Least_le)
    moreover have "\<exists>q. P f q" using pf by (rule exI)
    ultimately show ?thesis using True unfolding res_def by auto
  next
    case False
    then have "res (2 * f) = n" unfolding res_def by auto
    then show ?thesis using le_n[of f] by simp
  qed
  moreover have "GetPathId paths ratio g = Some (res g)" for g
    using GetPathId_eq_first_fit[OF ne, of ratio g]
    unfolding wrapped_first_fit_def res_def P_def n_def by simp
  ultimately show ?thesis by simp
qed

theorem GetPathId_double_monotone_witness:
  "[100, 1000] \<noteq> ([] :: uint64 list) \<and> (10 :: uint32) \<le> 100 \<and>
   2 * unat (50 :: uint64) < 2 ^ 64 \<and>
   sum_list (map unat (butlast [100, 1000 :: uint64])) < 2 ^ 64 \<and>
   (\<exists>a b. GetPathId [100, 1000] 10 50 = Some a \<and>
          GetPathId [100, 1000] 10 (2 * 50) = Some b \<and> a \<le> b)"
  using GetPathId_double_monotone [of "[100, 1000]" 10 50] by simp

lemma spec_future_exact:
  "(real_of_int f * (100 - real_of_int r) / 100 < real_of_int a) = (spec_future f r < a)"
proof -
  define k where "k = f * (100 - r)"
  have fl: "\<lfloor>real_of_int k / 100\<rfloor> = k div 100"
    using floor_divide_of_int_eq[of k 100] by simp
  have "(real_of_int k / 100 < real_of_int a) = (\<lfloor>real_of_int k / 100\<rfloor> < a)"
    by (rule floor_less_iff[symmetric])
  then have "(real_of_int k / 100 < real_of_int a) = (k div 100 < a)"
    by (simp only: fl)
  moreover have "real_of_int f * (100 - real_of_int r) / 100 = real_of_int k / 100"
    by (simp add: k_def)
  ultimately show ?thesis
    by (simp only: spec_future_def k_def)
qed

lemma find_upt_Least:
  "(case find P [0..<n] of Some p \<Rightarrow> p | None \<Rightarrow> n) =
     (if \<exists>p<n. P p then (LEAST p. p < n \<and> P p) else n)"
proof (cases "find P [0..<n]")
  case None
  then have "\<forall>p<n. \<not> P p" by (auto simp: find_None_iff)
  then show ?thesis using None by auto
next
  case (Some q)
  then have q: "q < n" "P q" "\<forall>j<q. \<not> P j"
    by (auto simp: find_Some_iff)
  have "(LEAST p. p < n \<and> P p) = q"
    using q by (intro Least_equality) (auto simp: not_less[symmetric])
  then show ?thesis using Some q by auto
qed

lemma unat_sum_list_exact:
  "sum_list (map unat (xs :: uint64 list)) < 2 ^ 64 \<Longrightarrow>
   unat (sum_list xs) = sum_list (map unat xs)"
proof (induction xs)
  case Nil show ?case by simp
next
  case (Cons x xs)
  then have IH: "unat (sum_list xs) = sum_list (map unat xs)" by simp
  have "unat x + unat (sum_list xs) < 2 ^ LENGTH(64)"
    using Cons.prems IH by simp
  then have "unat (x + sum_list xs) = unat x + unat (sum_list xs)"
    by (simp only: unat_add_lem)
  then show ?case using IH by simp
qed

lemma uint_sum_list_unat:
  "sum_list (map uint (xs :: uint64 list)) = int (sum_list (map unat xs))"
  by (induction xs) simp_all

lemma future_size_exact:
  fixes f :: uint64 and r :: uint32
  assumes r: "r \<le> 100" and prod: "unat f * (100 - unat r) < 2 ^ 64"
  shows "uint (f * ucast (100 - r) div 100) = spec_future (uint f) (uint r)"
proof -
  have c: "unat (100 - r) = 100 - unat r"
    using r by (simp add: unat_sub)
  have uc: "unat (ucast (100 - r) :: uint64) = unat (100 - r)"
    by (simp add: unsigned_ucast_eq take_bit_nat_eq_self_iff[THEN iffD2] order_less_le_trans[OF unsigned_less])
  have "unat f * unat (ucast (100 - r) :: uint64) < 2 ^ LENGTH(64)"
    using prod by (simp add: uc c)
  then have "unat (f * ucast (100 - r)) = unat f * unat (ucast (100 - r) :: uint64)"
    by (simp only: unat_mult_lem)
  then have m: "unat (f * ucast (100 - r)) = unat f * (100 - unat r)"
    by (simp only: uc c)
  have "unat (f * ucast (100 - r) div 100) = unat f * (100 - unat r) div 100"
    by (simp add: unat_div m)
  then have "int (unat (f * ucast (100 - r) div 100)) = int (unat f * (100 - unat r) div 100)"
    by (rule arg_cong)
  moreover have "unat r \<le> 100" using r by (simp add: word_le_nat_alt)
  ultimately show ?thesis
    by (simp add: spec_future_def zdiv_int of_nat_diff)
qed

lemma wrapped_path_fits_plain:
  assumes r: "r \<le> 100"
    and prod: "unat f * (100 - unat r) < 2 ^ 64"
    and tot: "sum_list (map unat (butlast paths)) < 2 ^ 64"
    and p: "p < length paths - 1"
  shows "wrapped_path_fits paths r f p = spec_path_fits (map uint paths) (uint r) (uint f) p"
proof -
  define t where "t = paths ! p"
  define A where "A = sum_list (take p paths)"
  have pl: "p < length paths" using p by simp
  have bound: "sum_list (map unat (take p paths)) + unat t < 2 ^ 64"
    using prefix_targets_bound[OF p] tot unfolding t_def by linarith
  then have uA: "unat A = sum_list (map unat (take p paths))"
    unfolding A_def by (intro unat_sum_list_exact) simp
  have "int (unat A) = sum_list (map uint (take p paths))"
    by (simp only: uA uint_sum_list_unat)
  then have iA: "uint A = sum_list (take p (map uint paths))"
    by (simp add: take_map)
  have it: "uint t = map uint paths ! p"
    using pl by (simp add: t_def)
  have fut: "uint (f * ucast (100 - r) div 100) = spec_future (uint f) (uint r)"
    by (rule future_size_exact[OF r prod])
  show ?thesis
  proof (cases "f < t")
    case False
    then show ?thesis
      using it by (simp add: wrapped_path_fits_def spec_path_fits_def t_def word_less_def)
  next
    case True
    then have le1: "f \<le> t" by simp
    have s1: "unat (t - f) = unat t - unat f"
      by (rule unat_sub[OF le1])
    have "unat f \<le> unat t" using le1 by (simp add: word_le_nat_alt)
    then have "unat A + unat (t - f) < 2 ^ LENGTH(64)"
      using bound s1 uA by simp
    then have a1: "unat (A + (t - f)) = unat A + unat (t - f)"
      by (simp only: unat_add_lem)
    have "int (unat (A + (t - f))) = int (unat A + (unat t - unat f))"
      by (simp only: a1 s1)
    then have "uint (A + (t - f)) = uint A + (uint t - uint f)"
      using \<open>unat f \<le> unat t\<close> by (simp add: of_nat_diff)
    then have "(f * ucast (100 - r) div 100 < A + (t - f)) =
               (spec_future (uint f) (uint r) < uint A + (uint t - uint f))"
      by (simp add: word_less_def fut)
    then show ?thesis
      using True it iA
      by (simp add: wrapped_path_fits_def spec_path_fits_def word_less_def
            flip: t_def A_def)
  qed
qed

lemma GetPathId_plain:
  assumes ne: "paths \<noteq> []"
    and r: "ratio \<le> 100"
    and prod: "unat f * (100 - unat ratio) < 2 ^ 64"
    and tot: "sum_list (map unat (butlast paths)) < 2 ^ 64"
  shows "GetPathId paths ratio f = Some (spec_GetPathId (map uint paths) (uint ratio) (uint f))"
proof -
  define n where "n = length paths - 1"
  define W where "W = wrapped_path_fits paths ratio f"
  define S where "S = spec_path_fits (map uint paths) (uint ratio) (uint f)"
  have eq: "W p = S p" if "p < n" for p
    using wrapped_path_fits_plain[OF r prod tot, of p] that unfolding W_def S_def n_def by simp
  have ex: "(\<exists>p<n. W p) = (\<exists>p<n. S p)"
    using eq by auto
  have "(\<lambda>p. p < n \<and> W p) = (\<lambda>p. p < n \<and> S p)"
    using eq by auto
  then have least: "(LEAST p. p < n \<and> W p) = (LEAST p. p < n \<and> S p)"
    by simp
  have "spec_GetPathId (map uint paths) (uint ratio) (uint f) =
          (case find S [0..<n] of Some p \<Rightarrow> p | None \<Rightarrow> n)"
    unfolding spec_GetPathId_def S_def n_def by (simp only: length_map)
  also have "\<dots> = (if \<exists>p<n. S p then (LEAST p. p < n \<and> S p) else n)"
    by (rule find_upt_Least)
  also have "\<dots> = wrapped_first_fit paths ratio f"
    unfolding wrapped_first_fit_def W_def[symmetric] n_def[symmetric] ex least ..
  finally show ?thesis
    using GetPathId_eq_first_fit[OF ne, of ratio f] by simp
qed

text \<open>
  Claim C6 as stated fails where the arithmetic of the code wraps around. With targets
  \<open>[100, 1000]\<close>, \<open>size_ratio = 200\<close> and size 50 the formula gives \<open>future = -50\<close> and path
  0, while the code computes \<^verbatim>\<open>100 - size_ratio\<close> as \<open>2^32 - 100\<close>, a future size of
  \<open>2147483598\<close>, and returns path 1. With targets \<open>[150, 2^64 - 50, 7]\<close>, \<open>size_ratio = 10\<close>
  and size 100 the formula gives path 1 (\<open>150 + (2^64 - 150) > 90\<close>), while in the code
  this sum wraps around to 0 and path 2 is returned.
\<close>

theorem GetPathId_plain_formula_counterexample:
  "GetPathId [100, 1000] 200 50 = Some 1 \<and>
   spec_GetPathId [100, 1000] 200 50 = 0 \<and>
   GetPathId [150, 18446744073709551566, 7] 10 100 = Some 2 \<and>
   spec_GetPathId [150, 18446744073709551566, 7] 10 100 = 1"
  by (simp add: GetPathId_def GetPathId_loop.simps spec_GetPathId_def spec_path_fits_def
        spec_future_def)

text \<open>
  Claim C6, amended. For a non-empty path list, \<open>GetPathId\<close> returns the first index \<open>p\<close>
  among \<open>0 .. n-2\<close> with \<open>target_p > f\<close> and \<open>acc + (target_p - f) > future\<close>, and \<open>n-1\<close> when
  there is none, where \<open>future = f * (100 - size_ratio) / 100\<close> and the sum \<open>acc\<close> of the
  targets before \<open>p\<close> are computed in unsigned machine arithmetic: \<open>100 - size_ratio\<close> in
  32 bits, the product, the differences and the sums in 64 bits, each wrapping around.
  When \<open>size_ratio\<close> is at most 100, \<open>f * (100 - size_ratio)\<close> is below \<open>2^64\<close> and the targets
  of all paths but the last sum to less than \<open>2^64\<close>, the result is that of the formula
  over the integers. With targets \<open>[100, 1000]\<close> and \<open>size_ratio = 10\<close> it returns path 0
  for size 50 and path 1 for size 80.
\<close>

theorem GetPathId_first_fit:
  "(paths \<noteq> [] \<longrightarrow>
      GetPathId paths ratio f = Some
        (if \<exists>p < length paths - 1. wrapped_path_fits paths ratio f p
         then (LEAST p. p < length paths - 1 \<and> wrapped_path_fits paths ratio f p)
         else length paths - 1)) \<and>
   (paths \<noteq> [] \<longrightarrow> ratio \<le> 100 \<longrightarrow> unat f * (100 - unat ratio) < 2 ^ 64 \<longrightarrow>
    sum_list (map unat (butlast paths)) < 2 ^ 64 \<longrightarrow>
      GetPathId paths ratio f =
        Some (spec_GetPathId (map uint paths) (uint ratio) (uint f))) \<and>
   GetPathId [100, 1000] 10 50 = Some 0 \<and>
   GetPathId [100, 1000] 10 80 = Some 1"
proof (intro conjI impI)
  assume ne: "paths \<noteq> []"
  show "GetPathId paths ratio f = Some
        (if \<exists>p < length paths - 1. wrapped_path_fits paths ratio f p
         then (LEAST p. p < length paths - 1 \<and> wrapped_path_fits paths ratio f p)
         else length paths - 1)"
    using GetPathId_eq_first_fit[OF ne, of ratio f]
    unfolding wrapped_first_fit_def .
next
  assume "paths \<noteq> []" "ratio \<le> 100" "unat f * (100 - unat ratio) < 2 ^ 64"
    "sum_list (map unat (butlast paths)) < 2 ^ 64"
  then show "GetPathId paths ratio f =
        Some (spec_GetPathId (map uint paths) (uint ratio) (uint f))"
    by (rule GetPathId_plain)
next
  show "GetPathId [100, 1000] 10 50 = Some 0"
    by (simp add: GetPathId_def GetPathId_loop.simps)
next
  show "GetPathId [100, 1000] 10 80 = Some 1"
    by (simp add: GetPathId_def GetPathId_loop.simps)
qed

theorem GetPathId_first_fit_witness:
  "[100, 1000] \<noteq> ([] :: uint64 list) \<and> (10 :: uint32) \<le> 100 \<and>
   unat (80 :: uint64) * (100 - unat (10 :: uint32)) < 2 ^ 64 \<and>
   sum_list (map unat (butlast [100, 1000 :: uint64])) < 2 ^ 64 \<and>
   GetPathId [100, 1000] 10 80 =
     Some (spec_GetPathId (map uint [100, 1000 :: uint64]) (uint (10 :: uint32))
             (uint (80 :: uint64))) \<and>
   spec_GetPathId [100, 1000] 10 80 = 1 \<and>
   wrapped_path_fits [100, 1000] 10 50 0"
  using GetPathId_first_fit [of "[100, 1000]" 10 80]
  by (simp add: spec_GetPathId_def spec_path_fits_def spec_future_def wrapped_path_fits_def)

subsection \<open>Size amplification\<close>

lemma SizeAmp_skip_Some:
  "SizeAmp_skip sorted_runs loop = Some s \<longleftrightarrow>
     loop \<le> s \<and> s < length sorted_runs - 1 \<and> \<not> sr_being_compacted (sorted_runs ! s) \<and>
     (\<forall>i. loop \<le> i \<and> i < s \<longrightarrow> sr_being_compacted (sorted_runs ! i))"
proof (induction sorted_runs loop rule: SizeAmp_skip.induct)
  case (1 sorted_runs loop)
  show ?case
  proof (cases "loop < length sorted_runs - 1")
    case False
    then have "SizeAmp_skip sorted_runs loop = None"
      by (subst SizeAmp_skip.simps) simp
    then show ?thesis using False by auto
  next
    case True
    show ?thesis
    proof (cases "sr_being_compacted (sorted_runs ! loop)")
      case False
      then have "SizeAmp_skip sorted_runs loop = Some loop"
        using True by (subst SizeAmp_skip.simps) simp
      moreover have "s = loop" if "loop \<le> s" "\<forall>i. loop \<le> i \<and> i < s \<longrightarrow> sr_being_compacted (sorted_runs ! i)"
      proof (rule ccontr)
        assume "s \<noteq> loop"
        with that(1) have "loop \<le> loop \<and> loop < s" by simp
        with that(2) have "sr_being_compacted (sorted_runs ! loop)" by blast
        with False show False by simp
      qed
      ultimately show ?thesis using True False by auto
    next
      case bc: True
      then have "SizeAmp_skip sorted_runs loop = SizeAmp_skip sorted_runs (loop + 1)"
        using True by (subst SizeAmp_skip.simps) simp
      then have "SizeAmp_skip sorted_runs loop = Some s \<longleftrightarrow>
          loop + 1 \<le> s \<and> s < length sorted_runs - 1 \<and> \<not> sr_being_compacted (sorted_runs ! s) \<and>
          (\<forall>i. loop + 1 \<le> i \<and> i < s \<longrightarrow> sr_being_compacted (sorted_runs ! i))"
        using "1.IH"[OF True] bc by simp
      also have "\<dots> \<longleftrightarrow> loop \<le> s \<and> s < length sorted_runs - 1 \<and> \<not> sr_being_compacted (sorted_runs ! s) \<and>
          (\<forall>i. loop \<le> i \<and> i < s \<longrightarrow> sr_being_compacted (sorted_runs ! i))"
      proof -
        have a: "loop + 1 \<le> s \<longleftrightarrow> loop \<le> s" if "\<not> sr_being_compacted (sorted_runs ! s)"
          using that bc by (cases "loop = s") auto
        have b: "(\<forall>i. loop + 1 \<le> i \<and> i < s \<longrightarrow> sr_being_compacted (sorted_runs ! i)) \<longleftrightarrow>
                 (\<forall>i. loop \<le> i \<and> i < s \<longrightarrow> sr_being_compacted (sorted_runs ! i))"
        proof (intro iffI allI impI)
          fix i assume h: "\<forall>i. loop + 1 \<le> i \<and> i < s \<longrightarrow> sr_being_compacted (sorted_runs ! i)"
            and i: "loop \<le> i \<and> i < s"
          show "sr_being_compacted (sorted_runs ! i)"
          proof (cases "i = loop")
            case True then show ?thesis using bc by simp
          next
            case False
            with i have "loop + 1 \<le> i \<and> i < s" by simp
            with h show ?thesis by blast
          qed
        next
          fix i assume h: "\<forall>i. loop \<le> i \<and> i < s \<longrightarrow> sr_being_compacted (sorted_runs ! i)"
            and i: "loop + 1 \<le> i \<and> i < s"
          then have "loop \<le> i \<and> i < s" by simp
          with h show "sr_being_compacted (sorted_runs ! i)" by blast
        qed
        show ?thesis using a b by blast
      qed
      finally show ?thesis .
    qed
  qed
qed

lemma SizeAmp_accumulate_eq:
  "loop \<le> length sorted_runs - 1 \<Longrightarrow>
   SizeAmp_accumulate sorted_runs loop cs cc =
     (if \<exists>i. loop \<le> i \<and> i < length sorted_runs - 1 \<and> sr_being_compacted (sorted_runs ! i)
      then None
      else Some (cs + sum_list (map sr_compensated_file_size (drop loop (butlast sorted_runs))),
                 cc + (length sorted_runs - 1 - loop)))"
proof (induction sorted_runs loop cs cc rule: SizeAmp_accumulate.induct)
  case (1 sorted_runs loop candidate_size candidate_count)
  show ?case
  proof (cases "loop < length sorted_runs - 1")
    case False
    then have "SizeAmp_accumulate sorted_runs loop candidate_size candidate_count =
        Some (candidate_size, candidate_count)"
      by (subst SizeAmp_accumulate.simps) simp
    then show ?thesis using False by auto
  next
    case True
    show ?thesis
    proof (cases "sr_being_compacted (sorted_runs ! loop)")
      case bc: True
      then have "SizeAmp_accumulate sorted_runs loop candidate_size candidate_count = None"
        using True by (subst SizeAmp_accumulate.simps) simp
      then show ?thesis using True bc by auto
    next
      case False
      have step: "SizeAmp_accumulate sorted_runs loop candidate_size candidate_count =
          SizeAmp_accumulate sorted_runs (loop + 1)
            (candidate_size + sr_compensated_file_size (sorted_runs ! loop)) (candidate_count + 1)"
        using True False by (subst SizeAmp_accumulate.simps) simp
      have ex: "(\<exists>i. loop \<le> i \<and> i < length sorted_runs - 1 \<and> sr_being_compacted (sorted_runs ! i)) \<longleftrightarrow>
                (\<exists>i. loop + 1 \<le> i \<and> i < length sorted_runs - 1 \<and> sr_being_compacted (sorted_runs ! i))"
      proof
        assume "\<exists>i. loop \<le> i \<and> i < length sorted_runs - 1 \<and> sr_being_compacted (sorted_runs ! i)"
        then obtain i where i: "loop \<le> i" "i < length sorted_runs - 1" "sr_being_compacted (sorted_runs ! i)"
          by blast
        with False have "i \<noteq> loop" by auto
        with i(1) have "loop + 1 \<le> i" by simp
        with i show "\<exists>i. loop + 1 \<le> i \<and> i < length sorted_runs - 1 \<and> sr_being_compacted (sorted_runs ! i)"
          by blast
      next
        assume "\<exists>i. loop + 1 \<le> i \<and> i < length sorted_runs - 1 \<and> sr_being_compacted (sorted_runs ! i)"
        then obtain i where i: "loop + 1 \<le> i" "i < length sorted_runs - 1" "sr_being_compacted (sorted_runs ! i)"
          by blast
        then have "loop \<le> i" by simp
        with i show "\<exists>i. loop \<le> i \<and> i < length sorted_runs - 1 \<and> sr_being_compacted (sorted_runs ! i)"
          by blast
      qed
      have dr: "drop loop (butlast sorted_runs) = sorted_runs ! loop # drop (loop + 1) (butlast sorted_runs)"
      proof -
        have lt: "loop < length (butlast sorted_runs)" using True by simp
        have "drop loop (butlast sorted_runs) =
              butlast sorted_runs ! loop # drop (Suc loop) (butlast sorted_runs)"
          using Cons_nth_drop_Suc[OF lt] by simp
        then show ?thesis using lt by (simp add: nth_butlast)
      qed
      have "loop + 1 \<le> length sorted_runs - 1" using True by simp
      from "1.IH"[OF True False this]
      have "SizeAmp_accumulate sorted_runs (loop + 1)
            (candidate_size + sr_compensated_file_size (sorted_runs ! loop)) (candidate_count + 1) =
        (if \<exists>i. loop + 1 \<le> i \<and> i < length sorted_runs - 1 \<and> sr_being_compacted (sorted_runs ! i)
         then None
         else Some (candidate_size + sr_compensated_file_size (sorted_runs ! loop) +
                      sum_list (map sr_compensated_file_size (drop (loop + 1) (butlast sorted_runs))),
                    candidate_count + 1 + (length sorted_runs - 1 - (loop + 1))))" .
      moreover have "candidate_count + 1 + (length sorted_runs - 1 - (loop + 1)) =
                     candidate_count + (length sorted_runs - 1 - loop)"
        using True by arith
      ultimately show ?thesis
        unfolding step ex dr by (simp only: list.map sum_list.Cons add.assoc)
    qed
  qed
qed


lemma first_free_unique:
  assumes "\<forall>i. i < s \<longrightarrow> sr_being_compacted (sorted_runs ! i)" "\<not> sr_being_compacted (sorted_runs ! s)"
    and "\<forall>i. i < t \<longrightarrow> sr_being_compacted (sorted_runs ! i)" "\<not> sr_being_compacted (sorted_runs ! t)"
  shows "s = t"
proof (rule ccontr)
  assume "s \<noteq> t"
  then consider "s < t" | "t < s" by arith
  then show False using assms by cases blast+
qed

text \<open>
  Claim C2 as stated fails: the strategy skips the leading runs that are being compacted
  and starts at the first run that is not. With four level-0 runs of which the two newest
  are being compacted, a third run of compensated size 30 and a bottommost run of size 10,
  and \<open>max_size_amplification_percent = 200\<close>, a plan is returned although runs other than
  the bottommost are being compacted.
\<close>

theorem SizeAmp_leading_compacted_counterexample:
  "PickCompactionToReduceSizeAmp ex_options (ex_vstorage ex_l0_leading_compacted)
     (map ex_run ex_l0_leading_compacted) \<noteq> None \<and>
   \<not> spec_size_amp_trigger ex_options (map ex_run ex_l0_leading_compacted)"
  by (simp add: ex_l0_leading_compacted_def PickCompactionToReduceSizeAmp_def
        spec_size_amp_trigger_def ex_run_def ex_file_def ex_options_def
        SizeAmp_skip.simps SizeAmp_accumulate.simps GetPathId_def)

text \<open>
  Claim C2, amended. For a non-empty list of sorted runs (and a non-empty list of storage
  paths), the strategy returns a plan if and only if the bottommost run is not being
  compacted and, with \<open>s\<close> the first run before the bottommost that is not being
  compacted (all runs before \<open>s\<close> are), no run from \<open>s\<close> up to the bottommost is being
  compacted and \<open>candidate_size * 100 \<ge> max_size_amplification_percent * earliest_file_size\<close>
  in 64-bit unsigned arithmetic, where \<open>candidate_size\<close> is the sum of the compensated sizes
  of the runs from \<open>s\<close> up to, and without, the bottommost.
\<close>

theorem PickCompactionToReduceSizeAmp_returns_iff:
  assumes ne: "sorted_runs \<noteq> []" and paths: "cf_paths opts \<noteq> []"
  shows "PickCompactionToReduceSizeAmp opts vstorage sorted_runs \<noteq> None \<longleftrightarrow>
     \<not> sr_being_compacted (last sorted_runs) \<and>
     (\<exists>s. s < length sorted_runs - 1 \<and>
        (\<forall>i. i < s \<longrightarrow> sr_being_compacted (sorted_runs ! i)) \<and>
        (\<forall>i. s \<le> i \<and> i < length sorted_runs - 1 \<longrightarrow> \<not> sr_being_compacted (sorted_runs ! i)) \<and>
        ucast (max_size_amplification_percent opts) * sr_size (last sorted_runs)
          \<le> sum_list (map sr_compensated_file_size (drop s (butlast sorted_runs))) * 100)"
  (is "?L \<longleftrightarrow> ?B \<and> (\<exists>s. s < ?n \<and> ?R s)")
proof (cases "sr_being_compacted (last sorted_runs)")
  case True
  then have "PickCompactionToReduceSizeAmp opts vstorage sorted_runs = None"
    by (simp add: PickCompactionToReduceSizeAmp_def)
  then show ?thesis using True by simp
next
  case B: False
  show ?thesis
  proof (cases "SizeAmp_skip sorted_runs 0")
    case None
    then have "PickCompactionToReduceSizeAmp opts vstorage sorted_runs = None"
      using ne B by (simp add: PickCompactionToReduceSizeAmp_def)
    moreover have "\<not> (\<exists>s. s < ?n \<and> ?R s)"
    proof
      assume "\<exists>s. s < ?n \<and> ?R s"
      then obtain s where s: "s < ?n" "?R s" by blast
      then have "\<not> sr_being_compacted (sorted_runs ! s)" by auto
      with s have "SizeAmp_skip sorted_runs 0 = Some s"
        unfolding SizeAmp_skip_Some by auto
      with None show False by simp
    qed
    ultimately show ?thesis by simp
  next
    case (Some s0)
    then have s0: "s0 < ?n" "\<not> sr_being_compacted (sorted_runs ! s0)"
        "\<forall>i. i < s0 \<longrightarrow> sr_being_compacted (sorted_runs ! i)"
      unfolding SizeAmp_skip_Some by auto
    have only: "s = s0" if "s < ?n" "?R s" for s
    proof -
      from that have "\<not> sr_being_compacted (sorted_runs ! s)" by auto
      with that s0 show ?thesis by (intro first_free_unique[of s sorted_runs s0]) auto
    qed
    have acc: "SizeAmp_accumulate sorted_runs s0 0 0 =
        (if \<exists>i. s0 \<le> i \<and> i < ?n \<and> sr_being_compacted (sorted_runs ! i) then None
         else Some (0 + sum_list (map sr_compensated_file_size (drop s0 (butlast sorted_runs))),
                    0 + (?n - s0)))"
      using s0(1) by (intro SizeAmp_accumulate_eq) simp
    show ?thesis
    proof (cases "\<exists>i. s0 \<le> i \<and> i < ?n \<and> sr_being_compacted (sorted_runs ! i)")
      case True
      then have "PickCompactionToReduceSizeAmp opts vstorage sorted_runs = None"
        using ne B Some acc by (simp add: PickCompactionToReduceSizeAmp_def)
      moreover have "\<not> (\<exists>s. s < ?n \<and> ?R s)"
        using only True by blast
      ultimately show ?thesis by simp
    next
      case False
      then have acc': "SizeAmp_accumulate sorted_runs s0 0 0 =
          Some (sum_list (map sr_compensated_file_size (drop s0 (butlast sorted_runs))), ?n - s0)"
        using acc by simp
      have cnt: "?n - s0 \<noteq> 0" using s0(1) by simp
      obtain pid where pid: "GetPathId (cf_paths opts) (size_ratio opts)
          (sum_list (map sr_size (drop s0 sorted_runs))) = Some pid"
        using paths by (simp add: GetPathId_def)
      have L: "?L \<longleftrightarrow> \<not> (sum_list (map sr_compensated_file_size (drop s0 (butlast sorted_runs))) * 100
                 < ucast (max_size_amplification_percent opts) * sr_size (last sorted_runs))"
        using ne B Some acc' cnt pid
        by (simp add: PickCompactionToReduceSizeAmp_def Let_def)
      have R: "(\<exists>s. s < ?n \<and> ?R s) \<longleftrightarrow> ?R s0"
        using only s0(1) by blast
      have "?R s0 \<longleftrightarrow> ucast (max_size_amplification_percent opts) * sr_size (last sorted_runs)
          \<le> sum_list (map sr_compensated_file_size (drop s0 (butlast sorted_runs))) * 100"
        using s0 False by blast
      then show ?thesis using L R B by (simp add: not_less)
    qed
  qed
qed

theorem PickCompactionToReduceSizeAmp_returns_iff_witness:
  "map ex_run ex_l0_leading_compacted \<noteq> [] \<and> cf_paths ex_options \<noteq> [] \<and>
   PickCompactionToReduceSizeAmp ex_options (ex_vstorage ex_l0_leading_compacted)
     (map ex_run ex_l0_leading_compacted) \<noteq> None"
  using PickCompactionToReduceSizeAmp_returns_iff
          [of "map ex_run ex_l0_leading_compacted" ex_options
              "ex_vstorage ex_l0_leading_compacted"]
  by (simp add: ex_l0_leading_compacted_def PickCompactionToReduceSizeAmp_def
        ex_run_def ex_file_def ex_options_def
        SizeAmp_skip.simps SizeAmp_accumulate.simps GetPathId_def)

subsection \<open>Delete-triggered compaction, single level\<close>

lemma delete_triggered_scan_True: "delete_triggered_scan fs True = fs"
  by (induction fs) simp_all

lemma delete_triggered_scan_False:
  "delete_triggered_scan fs False = dropWhile (\<lambda>f. \<not> marked_for_compaction f) fs"
  by (induction fs) (simp_all add: delete_triggered_scan_True)

text \<open>
  Claim C3 as stated fails: the files selected with the first marked file are the files
  after it in the order of level 0, which are the older ones. With level 0 holding files
  3, 2, 1 (newest first) and file 2 marked, the inputs are files 2 and 1; file 3, which the
  claim selects, is not among them.
\<close>

theorem PickDeleteTriggeredCompaction_newer_counterexample:
  "map_option inputs
     (PickDeleteTriggeredCompaction ex_collaborators ex_options ex_state
        (ex_vstorage ex_l0_middle_marked))
     = Some [\<lparr> level = 0, files = [ex_file 2 10 False True, ex_file 1 10 False False] \<rparr>] \<and>
   spec_delete_selection ex_l0_middle_marked
     = [ex_file 3 10 False False, ex_file 2 10 False True] \<and>
   ex_file 3 10 False False \<in> set (spec_delete_selection ex_l0_middle_marked) \<and>
   ex_file 3 10 False False \<notin> set [ex_file 2 10 False True, ex_file 1 10 False False]"
  by (simp add: PickDeleteTriggeredCompaction_def delete_triggered_inputs_def
        ex_l0_middle_marked_def ex_vstorage_def ex_file_def ex_options_def
        spec_delete_selection_def num_levels_def LevelFiles_def GetPathId_def
        GetPathId_loop.simps Let_def)

text \<open>
  Claim C3, amended. When \<open>num_levels = 1\<close> (and the list of storage paths is not empty),
  the inputs are the first file of level 0 marked for compaction together with all files
  after it in the order of level 0, that is, all older files; no plan is returned when
  this selection holds at most one file.
\<close>

theorem PickDeleteTriggeredCompaction_single_level:
  assumes single: "num_levels vstorage = 1" and paths: "cf_paths opts \<noteq> []"
  shows "(length (dropWhile (\<lambda>f. \<not> marked_for_compaction f) (LevelFiles vstorage 0)) \<le> 1 \<longrightarrow>
            PickDeleteTriggeredCompaction ext opts st vstorage = None) \<and>
         (1 < length (dropWhile (\<lambda>f. \<not> marked_for_compaction f) (LevelFiles vstorage 0)) \<longrightarrow>
            (\<exists>c. PickDeleteTriggeredCompaction ext opts st vstorage = Some c \<and>
                 inputs c = [\<lparr> level = 0,
                              files = dropWhile (\<lambda>f. \<not> marked_for_compaction f)
                                        (LevelFiles vstorage 0) \<rparr>]))"
proof -
  define sel where "sel = dropWhile (\<lambda>f. \<not> marked_for_compaction f) (LevelFiles vstorage 0)"
  have ins: "delete_triggered_inputs ext opts st vstorage =
      (if length sel \<le> 1 then None else Some ([\<lparr> level = 0, files = sel \<rparr>], 0))"
    using single
    by (simp add: delete_triggered_inputs_def delete_triggered_scan_False sel_def Let_def)
  obtain pid where pid: "GetPathId (cf_paths opts) (size_ratio opts)
      (sum_list (map fd_file_size (LevelFiles vstorage (nat 0)))) = Some pid"
    using paths by (simp add: GetPathId_def)
  have a: "PickDeleteTriggeredCompaction ext opts st vstorage = None" if "length sel \<le> 1"
    using that ins by (simp add: PickDeleteTriggeredCompaction_def)
  have b: "\<exists>c. PickDeleteTriggeredCompaction ext opts st vstorage = Some c \<and>
               inputs c = [\<lparr> level = 0, files = sel \<rparr>]" if "1 < length sel"
    using that ins pid by (simp add: PickDeleteTriggeredCompaction_def Let_def)
  show ?thesis using a b unfolding sel_def by blast
qed

theorem PickDeleteTriggeredCompaction_single_level_witness:
  "num_levels (ex_vstorage ex_l0_middle_marked) = 1 \<and> cf_paths ex_options \<noteq> [] \<and>
   (\<exists>c. PickDeleteTriggeredCompaction ex_collaborators ex_options ex_state
           (ex_vstorage ex_l0_middle_marked) = Some c \<and>
        inputs c = [\<lparr> level = 0,
                      files = [ex_file 2 10 False True, ex_file 1 10 False False] \<rparr>])"
  using PickDeleteTriggeredCompaction_single_level
          [of "ex_vstorage ex_l0_middle_marked" ex_options ex_collaborators ex_state]
  by (simp add: ex_l0_middle_marked_def ex_vstorage_def ex_file_def ex_options_def
        num_levels_def LevelFiles_def)

subsection \<open>The size-ratio window\<close>

lemma window_size_0: "window_size style sorted_runs i C 0 = C"
  by (simp add: window_size_def)

lemma window_size_shift:
  assumes "i < length sorted_runs"
  shows "window_size style sorted_runs (i + 1)
           (if style = kCompactionStopStyleSimilarSize
            then sr_compensated_file_size (sorted_runs ! i)
            else C + sr_compensated_file_size (sorted_runs ! i)) k
         = window_size style sorted_runs i C (k + 1)"
proof -
  have "drop i sorted_runs = sorted_runs ! i # drop (i + 1) sorted_runs"
    using assms by (simp add: Cons_nth_drop_Suc)
  then show ?thesis
    by (simp add: window_size_def add.assoc)
qed

lemma window_accepts_shift:
  assumes "i < length sorted_runs"
  shows "window_accepts ops style ratio m sorted_runs (i + 1)
           (if style = kCompactionStopStyleSimilarSize
            then sr_compensated_file_size (sorted_runs ! i)
            else C + sr_compensated_file_size (sorted_runs ! i)) (n + 1) j
         = window_accepts ops style ratio m sorted_runs i C n (j + 1)"
  unfolding window_accepts_def window_size_shift[OF assms] by simp

lemma extend_window_stop:
  assumes "\<not> window_accepts ops style ratio m sorted_runs i C n 0"
  shows "extend_window ops style ratio m sorted_runs i C n = (C, n)"
  using assms
  by (subst extend_window.simps)
     (auto simp: window_accepts_def window_size_0 Let_def split: if_splits)

lemma extend_window_step:
  assumes "window_accepts ops style ratio m sorted_runs i C n 0"
  shows "extend_window ops style ratio m sorted_runs i C n =
         extend_window ops style ratio m sorted_runs (i + 1)
           (if style = kCompactionStopStyleSimilarSize
            then sr_compensated_file_size (sorted_runs ! i)
            else C + sr_compensated_file_size (sorted_runs ! i)) (n + 1)"
  using assms
  by (subst extend_window.simps)
     (auto simp: window_accepts_def window_size_0 Let_def split: if_splits)

text \<open>
  The inner loop: from a window of \<open>n\<close> runs with candidate size \<open>C\<close> whose next run has
  index \<open>i\<close>, it accepts exactly \<open>k\<close> successors, where \<open>k\<close> is the first successor that is
  not accepted.
\<close>

lemma extend_window_exactly_while:
  "\<exists>k. extend_window ops style ratio max_files_to_compact sorted_runs i C n =
          (window_size style sorted_runs i C k, n + k) \<and>
        (\<forall>j<k. window_accepts ops style ratio max_files_to_compact sorted_runs i C n j) \<and>
        \<not> window_accepts ops style ratio max_files_to_compact sorted_runs i C n k"
proof (induction "length sorted_runs - i" arbitrary: i C n)
  case 0
  then have "\<not> window_accepts ops style ratio max_files_to_compact sorted_runs i C n 0"
    by (simp add: window_accepts_def)
  then show ?case
    using extend_window_stop[of ops style ratio max_files_to_compact sorted_runs i C n]
    by (intro exI[of _ 0]) (simp add: window_size_0)
next
  case (Suc d)
  show ?case
  proof (cases "window_accepts ops style ratio max_files_to_compact sorted_runs i C n 0")
    case False
    then show ?thesis
      using extend_window_stop[of ops style ratio max_files_to_compact sorted_runs i C n]
      by (intro exI[of _ 0]) (simp add: window_size_0)
  next
    case True
    define C1 where "C1 = (if style = kCompactionStopStyleSimilarSize
            then sr_compensated_file_size (sorted_runs ! i)
            else C + sr_compensated_file_size (sorted_runs ! i))"
    have lt: "i < length sorted_runs" using Suc(2) by simp
    have d: "d = length sorted_runs - (i + 1)" using Suc(2) by simp
    from Suc(1)[OF d, of C1 "n + 1"] obtain k where
      k: "extend_window ops style ratio max_files_to_compact sorted_runs (i + 1) C1 (n + 1) =
            (window_size style sorted_runs (i + 1) C1 k, n + 1 + k)"
         "\<forall>j<k. window_accepts ops style ratio max_files_to_compact sorted_runs (i + 1) C1 (n + 1) j"
         "\<not> window_accepts ops style ratio max_files_to_compact sorted_runs (i + 1) C1 (n + 1) k"
      by blast
    have sh: "window_accepts ops style ratio max_files_to_compact sorted_runs (i + 1) C1 (n + 1) j
        = window_accepts ops style ratio max_files_to_compact sorted_runs i C n (j + 1)" for j
      unfolding C1_def by (rule window_accepts_shift[OF lt])
    have r: "extend_window ops style ratio max_files_to_compact sorted_runs i C n =
          (window_size style sorted_runs i C (k + 1), n + (k + 1))"
      using extend_window_step[OF True] k(1) window_size_shift[OF lt, of style C k]
      unfolding C1_def by simp
    have a: "\<forall>j<k + 1. window_accepts ops style ratio max_files_to_compact sorted_runs i C n j"
    proof (intro allI impI)
      fix j assume "j < k + 1"
      show "window_accepts ops style ratio max_files_to_compact sorted_runs i C n j"
      proof (cases j)
        case 0 then show ?thesis using True by simp
      next
        case (Suc j')
        with \<open>j < k + 1\<close> have "j' < k" by simp
        with k(2) sh[of j'] show ?thesis using Suc by simp
      qed
    qed
    have b: "\<not> window_accepts ops style ratio max_files_to_compact sorted_runs i C n (k + 1)"
      using k(3) sh[of k] by simp
    show ?thesis using r a b by blast
  qed
qed


lemma skip_being_compacted_props:
  "loop \<le> length rs \<Longrightarrow>
     loop \<le> skip_being_compacted rs loop \<and> skip_being_compacted rs loop \<le> length rs \<and>
     (\<forall>i. loop \<le> i \<and> i < skip_being_compacted rs loop \<longrightarrow> sr_being_compacted (rs ! i)) \<and>
     (skip_being_compacted rs loop < length rs \<longrightarrow>
        \<not> sr_being_compacted (rs ! skip_being_compacted rs loop))"
proof (induction rs loop rule: skip_being_compacted.induct)
  case (1 rs l)
  show ?case
  proof (cases "l < length rs \<and> sr_being_compacted (rs ! l)")
    case True
    then have eq: "skip_being_compacted rs l = skip_being_compacted rs (l + 1)"
      by (subst skip_being_compacted.simps) simp
    have IH: "l + 1 \<le> skip_being_compacted rs (l + 1) \<and>
        skip_being_compacted rs (l + 1) \<le> length rs \<and>
        (\<forall>i. l + 1 \<le> i \<and> i < skip_being_compacted rs (l + 1) \<longrightarrow> sr_being_compacted (rs ! i)) \<and>
        (skip_being_compacted rs (l + 1) < length rs \<longrightarrow>
           \<not> sr_being_compacted (rs ! skip_being_compacted rs (l + 1)))"
      using 1(1) True by simp
    have "sr_being_compacted (rs ! i)"
      if "l \<le> i" "i < skip_being_compacted rs (l + 1)" for i
    proof (cases "i = l")
      case True
      then show ?thesis using \<open>l < length rs \<and> sr_being_compacted (rs ! l)\<close> by simp
    next
      case False
      then have "l + 1 \<le> i" using that by simp
      then show ?thesis using IH that by blast
    qed
    then show ?thesis using IH unfolding eq by auto
  next
    case False
    then have "skip_being_compacted rs l = l"
      by (subst skip_being_compacted.simps) auto
    then show ?thesis using False 1(2) by auto
  qed
qed

lemma extend_window_beyond:
  "length sorted_runs \<le> i \<Longrightarrow>
   extend_window ops style ratio m sorted_runs i C n = (C, n)"
  by (subst extend_window.simps) simp

lemma find_window_beyond:
  "length sorted_runs \<le> loop \<Longrightarrow>
   find_window ops style ratio m w sorted_runs loop = None"
  by (subst find_window.simps) simp

lemma find_window_characterisation:
  fixes ops :: "'d double_ops" and sorted_runs :: "'k SortedRun list"
  assumes mw: "1 \<le> mw"
  shows "case find_window ops style ratio cap mw sorted_runs loop of
       None \<Rightarrow>
         (\<forall>t. loop \<le> t \<and> t < length sorted_runs \<and> \<not> sr_being_compacted (sorted_runs ! t) \<longrightarrow>
            (\<exists>k. k + 1 < mw \<and>
              (\<forall>j. j < k \<longrightarrow> window_accepts ops style ratio cap sorted_runs (t + 1)
                        (sr_compensated_file_size (sorted_runs ! t)) 1 j) \<and>
              \<not> window_accepts ops style ratio cap sorted_runs (t + 1)
                        (sr_compensated_file_size (sorted_runs ! t)) 1 k))
     | Some (s, n) \<Rightarrow>
         loop \<le> s \<and> s < length sorted_runs \<and> \<not> sr_being_compacted (sorted_runs ! s) \<and>
         mw \<le> n \<and>
         (\<exists>k. n = k + 1 \<and>
              (\<forall>j. j < k \<longrightarrow> window_accepts ops style ratio cap sorted_runs (s + 1)
                        (sr_compensated_file_size (sorted_runs ! s)) 1 j) \<and>
              \<not> window_accepts ops style ratio cap sorted_runs (s + 1)
                        (sr_compensated_file_size (sorted_runs ! s)) 1 k) \<and>
         (\<forall>t. loop \<le> t \<and> t < s \<and> \<not> sr_being_compacted (sorted_runs ! t) \<longrightarrow>
            (\<exists>k. k + 1 < mw \<and>
              (\<forall>j. j < k \<longrightarrow> window_accepts ops style ratio cap sorted_runs (t + 1)
                        (sr_compensated_file_size (sorted_runs ! t)) 1 j) \<and>
              \<not> window_accepts ops style ratio cap sorted_runs (t + 1)
                        (sr_compensated_file_size (sorted_runs ! t)) 1 k))"
  using mw
proof (induction ops style ratio cap mw sorted_runs loop rule: find_window.induct)
  case (1 ops style ratio cap mw sorted_runs loop)
  let ?W = "\<lambda>t k. (\<forall>j. j < k \<longrightarrow> window_accepts ops style ratio cap sorted_runs (t + 1)
                        (sr_compensated_file_size (sorted_runs ! t)) 1 j) \<and>
              \<not> window_accepts ops style ratio cap sorted_runs (t + 1)
                        (sr_compensated_file_size (sorted_runs ! t)) 1 k"
  show ?case
  proof (cases "loop < length sorted_runs")
    case False
    then have "find_window ops style ratio cap mw sorted_runs loop = None"
      by (intro find_window_beyond) simp
    then show ?thesis using False by auto
  next
    case lt: True
    define loop1 where "loop1 = skip_being_compacted sorted_runs loop"
    have sk: "loop \<le> loop1" "loop1 \<le> length sorted_runs"
      "\<forall>i. loop \<le> i \<and> i < loop1 \<longrightarrow> sr_being_compacted (sorted_runs ! i)"
      "loop1 < length sorted_runs \<longrightarrow> \<not> sr_being_compacted (sorted_runs ! loop1)"
      using skip_being_compacted_props[of loop sorted_runs] lt unfolding loop1_def by auto
    show ?thesis
    proof (cases "loop1 < length sorted_runs")
      case False
      then have l1: "loop1 = length sorted_runs" using sk(2) by simp
      have "find_window ops style ratio cap mw sorted_runs loop = None"
        using lt l1 \<open>1 \<le> mw\<close>
        by (subst find_window.simps)
           (simp add: loop1_def[symmetric] extend_window_beyond find_window_beyond Let_def)
      moreover have "sr_being_compacted (sorted_runs ! t)"
        if "loop \<le> t" "t < length sorted_runs" for t
        using sk(3) that l1 by simp
      ultimately show ?thesis by auto
    next
      case found: True
      then have nbc: "\<not> sr_being_compacted (sorted_runs ! loop1)" using sk(4) by simp
      obtain k where k:
        "extend_window ops style ratio cap sorted_runs (loop1 + 1)
           (sr_compensated_file_size (sorted_runs ! loop1)) 1 =
           (window_size style sorted_runs (loop1 + 1)
              (sr_compensated_file_size (sorted_runs ! loop1)) k, 1 + k)"
        "?W loop1 k"
        using extend_window_exactly_while[of ops style ratio cap sorted_runs "loop1 + 1"
                "sr_compensated_file_size (sorted_runs ! loop1)" 1]
        by blast
      show ?thesis
      proof (cases "mw \<le> 1 + k")
        case True
        have "find_window ops style ratio cap mw sorted_runs loop = Some (loop1, 1 + k)"
          using lt found True k(1)
          by (subst find_window.simps) (simp add: loop1_def[symmetric] Let_def)
        moreover have "\<forall>t. loop \<le> t \<and> t < loop1 \<and> \<not> sr_being_compacted (sorted_runs ! t) \<longrightarrow>
            (\<exists>k. k + 1 < mw \<and> ?W t k)"
          using sk(3) by blast
        moreover have "\<exists>k'. 1 + k = k' + 1 \<and> ?W loop1 k'"
          using k(2) by (intro exI[of _ k]) simp
        ultimately show ?thesis using sk(1) found nbc True by simp
      next
        case short: False
        have eq: "find_window ops style ratio cap mw sorted_runs loop =
                  find_window ops style ratio cap mw sorted_runs (loop1 + 1)"
          using lt found short k(1)
          by (subst find_window.simps) (simp add: loop1_def[symmetric] Let_def)
        have IH: "case find_window ops style ratio cap mw sorted_runs (loop1 + 1) of
             None \<Rightarrow>
               (\<forall>t. loop1 + 1 \<le> t \<and> t < length sorted_runs \<and>
                     \<not> sr_being_compacted (sorted_runs ! t) \<longrightarrow> (\<exists>k. k + 1 < mw \<and> ?W t k))
           | Some (s, n) \<Rightarrow>
               loop1 + 1 \<le> s \<and> s < length sorted_runs \<and>
               \<not> sr_being_compacted (sorted_runs ! s) \<and> mw \<le> n \<and>
               (\<exists>k. n = k + 1 \<and> ?W s k) \<and>
               (\<forall>t. loop1 + 1 \<le> t \<and> t < s \<and> \<not> sr_being_compacted (sorted_runs ! t) \<longrightarrow>
                  (\<exists>k. k + 1 < mw \<and> ?W t k))"
        proof -
          have xb: "(1 :: nat) = (if loop1 < length sorted_runs then 1 else 0)"
            using found by simp
          have xc: "sr_compensated_file_size (sorted_runs ! loop1) =
              (if loop1 < length sorted_runs
               then sr_compensated_file_size (sorted_runs ! loop1) else 0)"
            using found by simp
          show ?thesis
            using "1.IH"[OF lt loop1_def refl xb xc k(1)[symmetric] short "1.prems"] .
        qed
        have here: "\<exists>k. k + 1 < mw \<and> ?W t k"
          if "loop \<le> t" "t \<le> loop1" "\<not> sr_being_compacted (sorted_runs ! t)" for t
        proof -
          have "t = loop1" using sk(3) that by (metis le_neq_implies_less)
          then show ?thesis using k(2) short by (intro exI[of _ k]) simp
        qed
        show ?thesis
        proof (cases "find_window ops style ratio cap mw sorted_runs (loop1 + 1)")
          case None
          have "\<exists>k. k + 1 < mw \<and> ?W t k"
            if "loop \<le> t" "t < length sorted_runs" "\<not> sr_being_compacted (sorted_runs ! t)" for t
          proof (cases "t \<le> loop1")
            case True then show ?thesis using here that by blast
          next
            case False
            then have "loop1 + 1 \<le> t" by simp
            then show ?thesis using IH None that by simp
          qed
          then show ?thesis using None eq by simp
        next
          case (Some sn)
          obtain s n where sn: "sn = (s, n)" by (cases sn)
          have P: "loop1 + 1 \<le> s" "s < length sorted_runs"
               "\<not> sr_being_compacted (sorted_runs ! s)" "mw \<le> n"
               "\<exists>k. n = k + 1 \<and> ?W s k"
               "\<forall>t. loop1 + 1 \<le> t \<and> t < s \<and> \<not> sr_being_compacted (sorted_runs ! t) \<longrightarrow>
                  (\<exists>k. k + 1 < mw \<and> ?W t k)"
            using IH Some sn by simp_all
          have "\<exists>k. k + 1 < mw \<and> ?W t k"
            if "loop \<le> t" "t < s" "\<not> sr_being_compacted (sorted_runs ! t)" for t
          proof (cases "t \<le> loop1")
            case True then show ?thesis using here that by blast
          next
            case False
            then have "loop1 + 1 \<le> t" by simp
            then show ?thesis using P(6) that by blast
          qed
          moreover have "loop \<le> s" using P(1) sk(1) by simp
          ultimately show ?thesis using Some sn eq P(2-5) by simp
        qed
      qed
    qed
  qed
qed


lemma window_at_unique:
  assumes "window_at ops opts ratio maxn sorted_runs s k"
    and "window_at ops opts ratio maxn sorted_runs s k'"
  shows "k = k'"
proof (rule ccontr)
  assume "k \<noteq> k'"
  then consider "k < k'" | "k' < k" by linarith
  then show False
    using assms unfolding window_at_def by cases blast+
qed

text \<open>
  Claim C5 as stated fails: the size tests are not the only conditions of the extension,
  and the candidate size is made of compensated sizes. The rule of the claim is
  \<open>spec_extend_window\<close>, started at the second run with the size of the first run and a
  count of one; \<open>ratio = 1\<close>, \<open>TotalSize\<close>, \<open>min_merge_width = 2\<close>.

  \<^item> Two runs of size 10, the second being compacted: the rule of the claim extends the
    window to both runs (\<open>10 \<le> 10 * 101 / 100\<close>); the code stops at the run being
    compacted, the window has one run and no plan is returned.
  \<^item> Three runs of size 10 and \<^verbatim>\<open>max_number_of_files_to_compact = 2\<close>: the rule of the
    claim extends the window to all three runs; the code stops at two runs and returns
    a plan with the first two files.
  \<^item> A run of size 10 and compensated size 100 before a run of size 50: the rule of the
    claim does not extend the window (\<open>50 > 10 * 101 / 100\<close>); the code starts from the
    compensated size (\<open>50 \<le> 100 * 101 / 100\<close>) and returns a plan with both files.
\<close>

theorem PickCompactionToReduceSortedRunsOld_window_counterexample:
  "PickCompactionToReduceSortedRunsOld real_ops ex_options
      (ex_vstorage ex_l0_second_compacted) 1 4294967295
      (map ex_run ex_l0_second_compacted) = None \<and>
   spec_extend_window real_ops kCompactionStopStyleTotalSize 1
      (map ex_run ex_l0_second_compacted) 1 10 1 = (20, 2) \<and>
   (\<exists>c. PickCompactionToReduceSortedRunsOld real_ops ex_options
      (ex_vstorage ex_l0_three_equal) 1 2 (map ex_run ex_l0_three_equal) = Some c \<and>
     inputs c = [\<lparr> level = 0, files = take 2 ex_l0_three_equal \<rparr>]) \<and>
   spec_extend_window real_ops kCompactionStopStyleTotalSize 1
      (map ex_run ex_l0_three_equal) 1 10 1 = (30, 3) \<and>
   (\<exists>c. PickCompactionToReduceSortedRunsOld real_ops ex_options
      (ex_vstorage ex_l0_compensated) 1 4294967295 (map ex_run ex_l0_compensated) = Some c \<and>
     inputs c = [\<lparr> level = 0, files = ex_l0_compensated \<rparr>]) \<and>
   spec_extend_window real_ops kCompactionStopStyleTotalSize 1
      (map ex_run ex_l0_compensated) 1 10 1 = (10, 1)"
proof (intro conjI)
  show "PickCompactionToReduceSortedRunsOld real_ops ex_options
      (ex_vstorage ex_l0_second_compacted) 1 4294967295
      (map ex_run ex_l0_second_compacted) = None"
    by (simp add: PickCompactionToReduceSortedRunsOld_def find_window.simps
          skip_being_compacted.simps extend_window.simps scaled_less_def real_ops_def
          ex_l0_second_compacted_def ex_run_def ex_file_def ex_options_def Let_def)
  show "spec_extend_window real_ops kCompactionStopStyleTotalSize 1
      (map ex_run ex_l0_second_compacted) 1 10 1 = (20, 2)"
    by (simp add: spec_extend_window.simps scaled_less_def real_ops_def
          ex_l0_second_compacted_def ex_run_def ex_file_def)
  show "\<exists>c. PickCompactionToReduceSortedRunsOld real_ops ex_options
      (ex_vstorage ex_l0_three_equal) 1 2 (map ex_run ex_l0_three_equal) = Some c \<and>
     inputs c = [\<lparr> level = 0, files = take 2 ex_l0_three_equal \<rparr>]"
    by (simp add: PickCompactionToReduceSortedRunsOld_def find_window.simps
          skip_being_compacted.simps extend_window.simps scaled_less_def real_ops_def
          ex_l0_three_equal_def ex_run_def ex_file_def ex_options_def ex_vstorage_def Let_def
          GetPathId_def GetPathId_loop.simps new_inputs_def push_files_def num_levels_def)
  show "spec_extend_window real_ops kCompactionStopStyleTotalSize 1
      (map ex_run ex_l0_three_equal) 1 10 1 = (30, 3)"
    by (simp add: spec_extend_window.simps scaled_less_def real_ops_def
          ex_l0_three_equal_def ex_run_def ex_file_def)
  show "\<exists>c. PickCompactionToReduceSortedRunsOld real_ops ex_options
      (ex_vstorage ex_l0_compensated) 1 4294967295 (map ex_run ex_l0_compensated) = Some c \<and>
     inputs c = [\<lparr> level = 0, files = ex_l0_compensated \<rparr>]"
    by (simp add: PickCompactionToReduceSortedRunsOld_def find_window.simps
          skip_being_compacted.simps extend_window.simps scaled_less_def real_ops_def
          ex_l0_compensated_def ex_run_def ex_file_def ex_options_def ex_vstorage_def Let_def
          GetPathId_def GetPathId_loop.simps new_inputs_def push_files_def num_levels_def)
  show "spec_extend_window real_ops kCompactionStopStyleTotalSize 1
      (map ex_run ex_l0_compensated) 1 10 1 = (10, 1)"
    by (simp add: spec_extend_window.simps scaled_less_def real_ops_def
          ex_l0_compensated_def ex_run_def ex_file_def)
qed

text \<open>
  Claim C5, amended. In \<open>PickCompactionToReduceSortedRunsOld\<close> a window starts at a run \<open>s\<close>
  that is not being compacted, with the compensated size of \<open>s\<close> as candidate size \<open>C\<close>. It
  is extended to the next run \<open>succ\<close> exactly while the window holds fewer than
  \<open>min(max_merge_width, max_number_of_files_to_compact)\<close> runs, \<open>succ\<close> exists and is not
  being compacted, \<open>succ.size \<le> C * (100 + ratio) / 100\<close> and, for \<open>SimilarSize\<close>,
  \<open>C \<le> succ.size * (100 + ratio) / 100\<close>, both tests in \<^verbatim>\<open>double\<close>; \<open>C\<close> accumulates the
  compensated sizes of the accepted runs (\<open>TotalSize\<close>) or becomes the compensated size of
  the last accepted run (\<open>SimilarSize\<close>). The inputs of a returned plan are the runs of
  the first such window that holds at least \<open>max(min_merge_width, 2)\<close> runs. No plan is
  returned when there is no path or every window is shorter.
\<close>

theorem PickCompactionToReduceSortedRunsOld_window:
  "case PickCompactionToReduceSortedRunsOld ops opts vstorage ratio
          max_number_of_files_to_compact sorted_runs of
     None \<Rightarrow>
       cf_paths opts = [] \<or>
       (\<forall>s k. window_at ops opts ratio max_number_of_files_to_compact sorted_runs s k \<longrightarrow>
              k + 1 < max (unat (min_merge_width opts)) 2)
   | Some c \<Rightarrow>
       (\<exists>s k. window_at ops opts ratio max_number_of_files_to_compact sorted_runs s k \<and>
          max (unat (min_merge_width opts)) 2 \<le> k + 1 \<and>
          (\<forall>t k'. t < s \<longrightarrow>
             window_at ops opts ratio max_number_of_files_to_compact sorted_runs t k' \<longrightarrow>
             k' + 1 < max (unat (min_merge_width opts)) 2) \<and>
          inputs c =
            pick_runs vstorage (sr_level (sorted_runs ! s))
              (take (k + 1) (drop s sorted_runs))
              (new_inputs (num_levels vstorage) (sr_level (sorted_runs ! s))))"
proof -
  define cap where
    "cap = min (unat (max_merge_width opts)) (unat max_number_of_files_to_compact)"
  define mw where "mw = max (unat (min_merge_width opts)) 2"
  define W where "W = window_at ops opts ratio max_number_of_files_to_compact sorted_runs"
  have mw1: "1 \<le> mw" and mw2: "2 \<le> mw" unfolding mw_def by simp_all
  note ch = find_window_characterisation[OF mw1, where ops = ops and style = "stop_style opts"
      and ratio = ratio and cap = cap and sorted_runs = sorted_runs and loop = 0]
  show ?thesis
  proof (cases "find_window ops (stop_style opts) ratio cap mw sorted_runs 0")
    case None
    have small: "k + 1 < mw" if w: "W s k" for s k
    proof -
      have s: "s < length sorted_runs" "\<not> sr_being_compacted (sorted_runs ! s)"
        using w unfolding W_def window_at_def by simp_all
      then obtain k0 where k0: "k0 + 1 < mw" "W s k0"
        using ch None unfolding W_def window_at_def cap_def by auto
      have "k = k0" using window_at_unique w k0(2) unfolding W_def by blast
      then show ?thesis using k0(1) by simp
    qed
    have "PickCompactionToReduceSortedRunsOld ops opts vstorage ratio
            max_number_of_files_to_compact sorted_runs = None"
      using None unfolding PickCompactionToReduceSortedRunsOld_def cap_def mw_def
      by (simp add: Let_def)
    then show ?thesis using small unfolding W_def mw_def by simp
  next
    case (Some sn)
    obtain s n where sn: "sn = (s, n)" by (cases sn)
    from ch Some sn obtain k where
      P: "s < length sorted_runs" "\<not> sr_being_compacted (sorted_runs ! s)" "mw \<le> n"
         "n = k + 1"
         "W s k"
         "\<forall>t. t < s \<and> \<not> sr_being_compacted (sorted_runs ! t) \<longrightarrow> (\<exists>k. k + 1 < mw \<and> W t k)"
      unfolding W_def window_at_def cap_def by auto
    have small: "k' + 1 < mw" if ts: "t < s" and w: "W t k'" for t k'
    proof -
      have "\<not> sr_being_compacted (sorted_runs ! t)"
        using w unfolding W_def window_at_def by simp
      then obtain k0 where k0: "k0 + 1 < mw" "W t k0"
        using P(6) ts by blast
      have "k' = k0" using window_at_unique w k0(2) unfolding W_def by blast
      then show ?thesis using k0(1) by simp
    qed
    have n2: "\<not> n \<le> 1" using P(3) mw2 by simp
    show ?thesis
    proof (cases "PickCompactionToReduceSortedRunsOld ops opts vstorage ratio
            max_number_of_files_to_compact sorted_runs")
      case None
      then have "GetPathId (cf_paths opts) (size_ratio opts)
                   (sum_list (map sr_size (take (s + n) sorted_runs))) = None"
        using Some sn n2 unfolding PickCompactionToReduceSortedRunsOld_def cap_def mw_def
        by (simp add: Let_def split: option.splits)
      then have "cf_paths opts = []"
        by (simp add: GetPathId_def split: if_splits)
      then show ?thesis using None by simp
    next
      case (Some c)
      then have inp: "inputs c = pick_runs vstorage (sr_level (sorted_runs ! s))
                   (take n (drop s sorted_runs))
                   (new_inputs (num_levels vstorage) (sr_level (sorted_runs ! s)))"
        using \<open>find_window ops (stop_style opts) ratio cap mw sorted_runs 0 = Some sn\<close> sn n2
        unfolding PickCompactionToReduceSortedRunsOld_def cap_def mw_def
        by (auto simp add: Let_def split: option.splits)
      have g: "W s k \<and> mw \<le> k + 1 \<and>
          (\<forall>t k'. t < s \<longrightarrow> W t k' \<longrightarrow> k' + 1 < mw) \<and>
          inputs c = pick_runs vstorage (sr_level (sorted_runs ! s))
                   (take (k + 1) (drop s sorted_runs))
                   (new_inputs (num_levels vstorage) (sr_level (sorted_runs ! s)))"
        using inp P(3,4,5) small by auto
      show ?thesis
        unfolding Some option.case using g unfolding W_def mw_def by blast
    qed
  qed
qed

theorem PickCompactionToReduceSortedRunsOld_window_witness:
  "\<exists>c s k. PickCompactionToReduceSortedRunsOld real_ops ex_options
            (ex_vstorage ex_l0_three_equal) 1 2 (map ex_run ex_l0_three_equal) = Some c \<and>
          window_at real_ops ex_options 1 2 (map ex_run ex_l0_three_equal) s k \<and>
          2 \<le> k + 1 \<and>
          inputs c =
            pick_runs (ex_vstorage ex_l0_three_equal)
              (sr_level (map ex_run ex_l0_three_equal ! s))
              (take (k + 1) (drop s (map ex_run ex_l0_three_equal)))
              (new_inputs (num_levels (ex_vstorage ex_l0_three_equal))
                 (sr_level (map ex_run ex_l0_three_equal ! s))) \<and>
          inputs c = [\<lparr> level = 0, files = take 2 ex_l0_three_equal \<rparr>]"
proof -
  obtain c where c: "PickCompactionToReduceSortedRunsOld real_ops ex_options
      (ex_vstorage ex_l0_three_equal) 1 2 (map ex_run ex_l0_three_equal) = Some c"
    and i: "inputs c = [\<lparr> level = 0, files = take 2 ex_l0_three_equal \<rparr>]"
    by (simp add: PickCompactionToReduceSortedRunsOld_def find_window.simps
          skip_being_compacted.simps extend_window.simps scaled_less_def real_ops_def
          ex_l0_three_equal_def ex_run_def ex_file_def ex_options_def ex_vstorage_def Let_def
          GetPathId_def GetPathId_loop.simps new_inputs_def push_files_def num_levels_def)
  have m: "max (unat (min_merge_width ex_options)) 2 = 2"
    by (simp add: ex_options_def)
  from PickCompactionToReduceSortedRunsOld_window
         [where ops = real_ops and opts = ex_options
            and vstorage = "ex_vstorage ex_l0_three_equal" and ratio = 1
            and max_number_of_files_to_compact = 2
            and sorted_runs = "map ex_run ex_l0_three_equal"]
  show ?thesis
    unfolding c option.case m using c i by blast
qed

subsection \<open>Overlap check of the inputs\<close>

































subsection \<open>Geometric grouping\<close>

lemma mark_singletons_result:
  assumes "j \<le> g" "g \<le> length out" "sr_sz = g + d" "sr_sz \<le> length sr"
  shows "\<exists>out1. mark_singletons sr sr_sz g j out = Some out1 \<and> length out1 = length out \<and>
           (\<forall>k. j \<le> k \<and> k < g \<longrightarrow> grp_start (out1 ! k) = k + d \<and> grp_count (out1 ! k) = 1) \<and>
           (\<forall>k. k < j \<or> g \<le> k \<longrightarrow> out1 ! k = out ! k)"
  using assms
proof (induction "g - j" arbitrary: j out)
  case 0
  then have "j = g" by simp
  then have "mark_singletons sr sr_sz g j out = Some out"
    by (subst mark_singletons.simps) simp
  then show ?case using \<open>j = g\<close> by simp
next
  case (Suc m)
  then have jg: "j < g" by simp
  define out' where "out' = out[j := \<lparr> grp_start = j + d, grp_count = 1, grp_ratio = sr ! (j + d) \<rparr>]"
  have st: "j + sr_sz - g = j + d" using Suc.prems by simp
  have "j + d < length sr" using jg Suc.prems by simp
  then have step: "mark_singletons sr sr_sz g j out = mark_singletons sr sr_sz g (j + 1) out'"
    using jg Suc.prems st
    by (subst mark_singletons.simps) (simp add: out'_def Let_def)
  have m: "m = g - (j + 1)" using Suc.hyps(2) by simp
  have "\<exists>out1. mark_singletons sr sr_sz g (j + 1) out' = Some out1 \<and> length out1 = length out' \<and>
           (\<forall>k. j + 1 \<le> k \<and> k < g \<longrightarrow> grp_start (out1 ! k) = k + d \<and> grp_count (out1 ! k) = 1) \<and>
           (\<forall>k. k < j + 1 \<or> g \<le> k \<longrightarrow> out1 ! k = out' ! k)"
    using Suc.prems jg by (intro Suc.hyps(1)[OF m]) (simp_all add: out'_def)
  then obtain out1 where o1: "mark_singletons sr sr_sz g (j + 1) out' = Some out1"
      "length out1 = length out'"
      "\<forall>k. j + 1 \<le> k \<and> k < g \<longrightarrow> grp_start (out1 ! k) = k + d \<and> grp_count (out1 ! k) = 1"
      "\<forall>k. k < j + 1 \<or> g \<le> k \<longrightarrow> out1 ! k = out' ! k"
    by blast
  have jl: "j < length out" using jg Suc.prems by simp
  have a: "grp_start (out1 ! k) = k + d \<and> grp_count (out1 ! k) = 1" if "j \<le> k \<and> k < g" for k
  proof (cases "k = j")
    case True
    then have "out1 ! k = out' ! j" using o1(4) by simp
    then show ?thesis using jl True by (simp add: out'_def)
  next
    case False
    then show ?thesis using that o1(3) by simp
  qed
  have b: "out1 ! k = out ! k" if "k < j \<or> g \<le> k" for k
  proof -
    have "k \<noteq> j" using that jg by auto
    moreover have "out1 ! k = out' ! k" using that o1(4) by auto
    ultimately show ?thesis by (simp add: out'_def)
  qed
  show ?case using step o1(1,2) a b by (auto simp: out'_def)
qed

lemma refine_groups_result:
  assumes "i < g" "g \<le> length out" "sr_sz = g + d" "sr_sz \<le> length sr"
    and "\<forall>k. g \<le> k \<and> k < length out \<longrightarrow> grp_start (out ! k) = k + d \<and> grp_count (out ! k) = 1"
  shows "\<exists>sr_sz1 g1 q1 out1. refine_groups ops sr i sr_sz g q out = Some (sr_sz1, g1, q1, out1) \<and>
           1 \<le> g1 \<and> g1 \<le> g \<and> sr_sz1 = g1 + d \<and> length out1 = length out \<and>
           (\<forall>k. g1 \<le> k \<and> k < length out \<longrightarrow>
                grp_start (out1 ! k) = k + d \<and> grp_count (out1 ! k) = 1)"
  using assms
proof (induction i arbitrary: sr_sz g q out)
  case 0
  then have "refine_groups ops sr 0 sr_sz g q out = Some (sr_sz, g, q, out)"
    by (subst refine_groups.simps) simp
  then show ?case using 0 by auto
next
  case (Suc i)
  show ?case
  proof (cases "d_less ops (d_of_nat ops 1) q")
    case False
    then have "refine_groups ops sr (Suc i) sr_sz g q out = Some (sr_sz, g, q, out)"
      by (subst refine_groups.simps) simp
    then show ?thesis using Suc.prems by auto
  next
    case True
    define e where "e = g - Suc i"
    define new_q where "new_q = Q ops (take (sr_sz - e) sr) (g - e)"
    have chk: "\<not> (g < Suc i \<or> sr_sz < g - Suc i \<or> length sr < sr_sz)"
      using Suc.prems by simp
    show ?thesis
    proof (cases "d_less ops new_q q")
      case False
      then have step: "refine_groups ops sr (Suc i) sr_sz g q out =
                       refine_groups ops sr i sr_sz g q out"
        using True chk
        by (subst refine_groups.simps) (simp add: Let_def e_def new_q_def)
      have "i < g" using Suc.prems by simp
      from Suc.IH[OF this Suc.prems(2-5), of q] show ?thesis unfolding step .
    next
      case adopt: True
      obtain out1 where o1: "mark_singletons sr sr_sz g (Suc i) out = Some out1"
          "length out1 = length out"
          "\<forall>k. Suc i \<le> k \<and> k < g \<longrightarrow> grp_start (out1 ! k) = k + d \<and> grp_count (out1 ! k) = 1"
          "\<forall>k. k < Suc i \<or> g \<le> k \<longrightarrow> out1 ! k = out ! k"
        using mark_singletons_result[of "Suc i" g out sr_sz d sr] Suc.prems by auto
      have ge: "g - e = Suc i" and se: "sr_sz - e = Suc i + d"
        using Suc.prems by (simp_all add: e_def)
      have nq: "Q ops (take (Suc (i + d)) sr) (Suc i) = new_q"
        using ge se by (simp add: new_q_def)
      have step: "refine_groups ops sr (Suc i) sr_sz g q out =
                  refine_groups ops sr i (Suc i + d) (Suc i) new_q out1"
        using True chk adopt o1(1) ge se nq
        by (subst refine_groups.simps) (simp add: Let_def e_def[symmetric])
      have tail: "\<forall>k. Suc i \<le> k \<and> k < length out1 \<longrightarrow>
                    grp_start (out1 ! k) = k + d \<and> grp_count (out1 ! k) = 1"
      proof (intro allI impI)
        fix k assume k: "Suc i \<le> k \<and> k < length out1"
        show "grp_start (out1 ! k) = k + d \<and> grp_count (out1 ! k) = 1"
        proof (cases "k < g")
          case True then show ?thesis using k o1(3) by simp
        next
          case False
          then have "out1 ! k = out ! k" using o1(4) by simp
          then show ?thesis using False k o1(2) Suc.prems(5) by simp
        qed
      qed
      have "\<exists>sr_sz1 g1 q1 out2.
          refine_groups ops sr i (Suc i + d) (Suc i) new_q out1 = Some (sr_sz1, g1, q1, out2) \<and>
          1 \<le> g1 \<and> g1 \<le> Suc i \<and> sr_sz1 = g1 + d \<and> length out2 = length out1 \<and>
          (\<forall>k. g1 \<le> k \<and> k < length out1 \<longrightarrow>
               grp_start (out2 ! k) = k + d \<and> grp_count (out2 ! k) = 1)"
        using Suc.prems o1(2) tail by (intro Suc.IH) simp_all
      then show ?thesis unfolding step using o1(2) Suc.prems(1) by auto
    qed
  qed
qed


lemma start_ratio_update [simp]:
  "grp_start (out[a := (out ! a)\<lparr> grp_ratio := r \<rparr>] ! k) = grp_start (out ! k)"
  by (cases "a < length out"; cases "k = a") (simp_all add: list_update_beyond)

lemma count_ratio_update [simp]:
  "grp_count (out[a := (out ! a)\<lparr> grp_ratio := r \<rparr>] ! k) = grp_count (out ! k)"
  by (cases "a < length out"; cases "k = a") (simp_all add: list_update_beyond)

lemma count_start_update [simp]:
  "grp_count (out[a := (out ! a)\<lparr> grp_start := r \<rparr>] ! k) = grp_count (out ! k)"
  by (cases "a < length out"; cases "k = a") (simp_all add: list_update_beyond)

lemma start_count_update [simp]:
  "grp_start (out[a := (out ! a)\<lparr> grp_count := r \<rparr>] ! k) = grp_start (out ! k)"
  by (cases "a < length out"; cases "k = a") (simp_all add: list_update_beyond)

lemma start_start_update:
  "a < length out \<Longrightarrow>
   grp_start (out[a := (out ! a)\<lparr> grp_start := r \<rparr>] ! k) = (if k = a then r else grp_start (out ! k))"
  by simp

lemma sweep_groups_result:
  assumes "q_i \<le> m" "q_i < g" "g \<le> length out" "m < sr_sz" "sr_sz \<le> length sr"
    and "grp_start (out ! 0) = 0"
    and "\<forall>k. q_i < k \<and> k < g \<longrightarrow> m < grp_start (out ! k) \<and> grp_start (out ! k) < sr_sz"
    and "\<forall>k. q_i < k \<and> k + 1 < g \<longrightarrow> grp_start (out ! k) < grp_start (out ! (k + 1))"
  shows "\<exists>out1. sweep_groups ops sr q m sr_acc q_acc q_i out = Some out1 \<and>
      length out1 = length out \<and> grp_start (out1 ! 0) = 0 \<and>
      (\<forall>k. 0 < k \<and> k < g \<longrightarrow> 0 < grp_start (out1 ! k) \<and> grp_start (out1 ! k) < sr_sz) \<and>
      (\<forall>k. 0 < k \<and> k + 1 < g \<longrightarrow> grp_start (out1 ! k) < grp_start (out1 ! (k + 1))) \<and>
      (\<forall>k. g \<le> k \<longrightarrow> out1 ! k = out ! k)"
  using assms
proof (induction m arbitrary: sr_acc q_acc q_i out)
  case 0
  then have "q_i = 0" by simp
  then show ?case using 0 by auto
next
  case (Suc i)
  define new_acc where "new_acc = d_add ops sr_acc (sr ! i)"
  define cond where "cond \<longleftrightarrow> (i < q_i \<or> d_less ops q_acc sr_acc \<or>
             d_less ops (d_abs ops (d_sub ops sr_acc q_acc))
                        (d_abs ops (d_sub ops new_acc q_acc))) \<and> q_i > 0"
  have rng: "i < length sr \<and> q_i < length out" using Suc.prems by simp
  show ?case
  proof (cases cond)
    case False
    define out' where "out' = out[q_i := (out ! q_i)\<lparr> grp_ratio :=
                           d_add ops (grp_ratio (out ! q_i)) (sr ! i) \<rparr>]"
    have step: "sweep_groups ops sr q (Suc i) sr_acc q_acc q_i out =
                sweep_groups ops sr q i new_acc q_acc q_i out'"
      using False rng by (auto simp add: cond_def new_acc_def out'_def Let_def)
    have qi: "q_i \<le> i"
    proof (cases "q_i = 0")
      case True then show ?thesis by simp
    next
      case nz: False
      with False have "\<not> i < q_i" by (auto simp: cond_def)
      then show ?thesis by simp
    qed
    have st: "grp_start (out' ! k) = grp_start (out ! k)" for k
      by (simp add: out'_def)
    have len: "length out' = length out" by (simp add: out'_def)
    have "\<exists>out1. sweep_groups ops sr q i new_acc q_acc q_i out' = Some out1 \<and>
      length out1 = length out' \<and> grp_start (out1 ! 0) = 0 \<and>
      (\<forall>k. 0 < k \<and> k < g \<longrightarrow> 0 < grp_start (out1 ! k) \<and> grp_start (out1 ! k) < sr_sz) \<and>
      (\<forall>k. 0 < k \<and> k + 1 < g \<longrightarrow> grp_start (out1 ! k) < grp_start (out1 ! (k + 1))) \<and>
      (\<forall>k. g \<le> k \<longrightarrow> out1 ! k = out' ! k)"
    proof (rule Suc.IH)
      show "q_i \<le> i" by (rule qi)
      show "q_i < g" "sr_sz \<le> length sr" using Suc.prems by simp_all
      show "g \<le> length out'" using Suc.prems len by simp
      show "i < sr_sz" using Suc.prems by simp
      show "grp_start (out' ! 0) = 0" using Suc.prems st by simp
      show "\<forall>k. q_i < k \<and> k < g \<longrightarrow> i < grp_start (out' ! k) \<and> grp_start (out' ! k) < sr_sz"
        using Suc.prems(7) st by (auto dest: Suc_lessD)
      show "\<forall>k. q_i < k \<and> k + 1 < g \<longrightarrow> grp_start (out' ! k) < grp_start (out' ! (k + 1))"
        using Suc.prems(8) st by simp
    qed
    moreover have "out' ! k = out ! k" if "g \<le> k" for k
      using that Suc.prems(2) by (simp add: out'_def)
    ultimately show ?thesis unfolding step using len by auto
  next
    case True
    then have pos: "0 < q_i" by (simp add: cond_def)
    define out1 where "out1 = out[q_i := (out ! q_i)\<lparr> grp_start := i + 1 \<rparr>]"
    define q_i1 where "q_i1 = q_i - 1"
    define out2 where "out2 = out1[q_i1 := (out1 ! q_i1)\<lparr> grp_ratio := d_of_nat ops 0 \<rparr>]"
    define out3 where "out3 = out2[q_i1 := (out2 ! q_i1)\<lparr> grp_ratio :=
                                      d_add ops (grp_ratio (out2 ! q_i1)) (sr ! i) \<rparr>]"
    have step: "sweep_groups ops sr q (Suc i) sr_acc q_acc q_i out =
                sweep_groups ops sr q i new_acc
                  (d_add ops q_acc (d_pow ops q (d_of_nat ops q_i))) q_i1 out3"
      using True rng
      by (auto simp add: cond_def new_acc_def out1_def out2_def out3_def q_i1_def Let_def)
    have s3: "grp_start (out3 ! k) = grp_start (out2 ! k)" for k
      by (simp only: out3_def start_ratio_update)
    have s2: "grp_start (out2 ! k) = grp_start (out1 ! k)" for k
      by (simp only: out2_def start_ratio_update)
    have s1: "grp_start (out1 ! k) = (if k = q_i then i + 1 else grp_start (out ! k))" for k
      unfolding out1_def using rng by (simp only: start_start_update)
    have st: "grp_start (out3 ! k) = (if k = q_i then i + 1 else grp_start (out ! k))" for k
      by (simp only: s3 s2 s1)
    have len: "length out3 = length out"
      by (simp only: out3_def out2_def out1_def length_list_update)
    have "\<exists>out4. sweep_groups ops sr q i new_acc
                  (d_add ops q_acc (d_pow ops q (d_of_nat ops q_i))) q_i1 out3 = Some out4 \<and>
      length out4 = length out3 \<and> grp_start (out4 ! 0) = 0 \<and>
      (\<forall>k. 0 < k \<and> k < g \<longrightarrow> 0 < grp_start (out4 ! k) \<and> grp_start (out4 ! k) < sr_sz) \<and>
      (\<forall>k. 0 < k \<and> k + 1 < g \<longrightarrow> grp_start (out4 ! k) < grp_start (out4 ! (k + 1))) \<and>
      (\<forall>k. g \<le> k \<longrightarrow> out4 ! k = out3 ! k)"
    proof (rule Suc.IH)
      show "q_i1 \<le> i" using Suc.prems(1) by (simp add: q_i1_def)
      show "q_i1 < g" using Suc.prems(2) by (simp add: q_i1_def)
      show "sr_sz \<le> length sr" using Suc.prems by simp
      show "g \<le> length out3" using Suc.prems len by simp
      show "i < sr_sz" using Suc.prems by simp
      show "grp_start (out3 ! 0) = 0" using Suc.prems(6) pos st by simp
      show "\<forall>k. q_i1 < k \<and> k < g \<longrightarrow> i < grp_start (out3 ! k) \<and> grp_start (out3 ! k) < sr_sz"
      proof (intro allI impI)
        fix k assume k: "q_i1 < k \<and> k < g"
        show "i < grp_start (out3 ! k) \<and> grp_start (out3 ! k) < sr_sz"
        proof (cases "k = q_i")
          case True then show ?thesis using st Suc.prems(4) by simp
        next
          case False
          with k pos have "q_i < k \<and> k < g" by (auto simp add: q_i1_def)
          with Suc.prems(7) have "Suc i < grp_start (out ! k) \<and> grp_start (out ! k) < sr_sz" by blast
          then show ?thesis using st False by simp
        qed
      qed
      show "\<forall>k. q_i1 < k \<and> k + 1 < g \<longrightarrow> grp_start (out3 ! k) < grp_start (out3 ! (k + 1))"
      proof (intro allI impI)
        fix k assume k: "q_i1 < k \<and> k + 1 < g"
        show "grp_start (out3 ! k) < grp_start (out3 ! (k + 1))"
        proof (cases "k = q_i")
          case True
          with k have "q_i < k + 1 \<and> k + 1 < g" by simp
          with Suc.prems(7) have "Suc i < grp_start (out ! (k + 1))" by blast
          then show ?thesis using st True by simp
        next
          case False
          with k pos have "q_i < k \<and> k + 1 < g" by (auto simp add: q_i1_def)
          with Suc.prems(8) have "grp_start (out ! k) < grp_start (out ! (k + 1))" by blast
          moreover have "k + 1 \<noteq> q_i" using \<open>q_i < k \<and> k + 1 < g\<close> by simp
          ultimately show ?thesis using st False by simp
        qed
      qed
    qed
    moreover have "out3 ! k = out ! k" if "g \<le> k" for k
    proof -
      have n: "q_i \<noteq> k" "q_i1 \<noteq> k" using that Suc.prems(2) by (simp_all add: q_i1_def)
      have "out3 ! k = out2 ! k" unfolding out3_def by (rule nth_list_update_neq[OF n(2)])
      also have "\<dots> = out1 ! k" unfolding out2_def by (rule nth_list_update_neq[OF n(2)])
      also have "\<dots> = out ! k" unfolding out1_def by (rule nth_list_update_neq[OF n(1)])
      finally show ?thesis .
    qed
    ultimately show ?thesis unfolding step using len by auto
  qed
qed


lemma set_counts_result:
  assumes "1 \<le> i" "i \<le> g" "g \<le> length out"
  shows "\<exists>out1. set_counts g i out = Some out1 \<and> length out1 = length out \<and>
     (\<forall>k. grp_start (out1 ! k) = grp_start (out ! k)) \<and>
     (\<forall>k. i \<le> k + 1 \<and> k + 1 < g \<longrightarrow>
          grp_count (out1 ! k) = grp_start (out ! (k + 1)) - grp_start (out ! k)) \<and>
     (\<forall>k. k + 1 < i \<or> g \<le> k + 1 \<longrightarrow> grp_count (out1 ! k) = grp_count (out ! k))"
  using assms
proof (induction "g - i" arbitrary: i out)
  case 0
  then have "set_counts g i out = Some out"
    by (subst set_counts.simps) simp
  then show ?case using 0 by auto
next
  case (Suc m)
  then have ig: "i < g" by simp
  have il: "i - 1 < length out" using ig Suc.prems by simp
  define c where "c = grp_start (out ! i) - grp_start (out ! (i - 1))"
  define out' where "out' = out[i - 1 := (out ! (i - 1))\<lparr> grp_count := c \<rparr>]"
  have step: "set_counts g i out = set_counts g (i + 1) out'"
    using ig Suc.prems by (subst set_counts.simps) (simp add: out'_def c_def)
  have st: "grp_start (out' ! k) = grp_start (out ! k)" for k
    by (simp only: out'_def start_count_update)
  have cn: "grp_count (out' ! k) = (if k = i - 1 then c else grp_count (out ! k))" for k
    unfolding out'_def using il by simp
  have len: "length out' = length out" by (simp add: out'_def)
  have m: "m = g - (i + 1)" using Suc.hyps(2) by simp
  have "\<exists>out1. set_counts g (i + 1) out' = Some out1 \<and> length out1 = length out' \<and>
     (\<forall>k. grp_start (out1 ! k) = grp_start (out' ! k)) \<and>
     (\<forall>k. i + 1 \<le> k + 1 \<and> k + 1 < g \<longrightarrow>
          grp_count (out1 ! k) = grp_start (out' ! (k + 1)) - grp_start (out' ! k)) \<and>
     (\<forall>k. k + 1 < i + 1 \<or> g \<le> k + 1 \<longrightarrow> grp_count (out1 ! k) = grp_count (out' ! k))"
    using ig Suc.prems len by (intro Suc.hyps(1)[OF m]) simp_all
  then obtain out1 where o1: "set_counts g (i + 1) out' = Some out1" "length out1 = length out'"
     "\<forall>k. grp_start (out1 ! k) = grp_start (out' ! k)"
     "\<forall>k. i + 1 \<le> k + 1 \<and> k + 1 < g \<longrightarrow>
          grp_count (out1 ! k) = grp_start (out' ! (k + 1)) - grp_start (out' ! k)"
     "\<forall>k. k + 1 < i + 1 \<or> g \<le> k + 1 \<longrightarrow> grp_count (out1 ! k) = grp_count (out' ! k)"
    by blast
  have a: "grp_count (out1 ! k) = grp_start (out ! (k + 1)) - grp_start (out ! k)"
    if "i \<le> k + 1 \<and> k + 1 < g" for k
  proof (cases "k = i - 1")
    case True
    then have "k + 1 < i + 1" using Suc.prems(1) by simp
    then have "grp_count (out1 ! k) = grp_count (out' ! k)" using o1(5) by blast
    also have "\<dots> = c" using cn True by simp
    finally show ?thesis using True Suc.prems(1) by (simp add: c_def)
  next
    case False
    then have "i + 1 \<le> k + 1 \<and> k + 1 < g" using that by auto
    then show ?thesis using o1(4) st by simp
  qed
  have b: "grp_count (out1 ! k) = grp_count (out ! k)" if "k + 1 < i \<or> g \<le> k + 1" for k
  proof -
    have ne: "k \<noteq> i - 1" using that ig Suc.prems(1) by auto
    have "k + 1 < i + 1 \<or> g \<le> k + 1" using that by auto
    with o1(5) have "grp_count (out1 ! k) = grp_count (out' ! k)" by blast
    also have "\<dots> = grp_count (out ! k)" using cn[of k] ne by simp
    finally show ?thesis .
  qed
  show ?case unfolding step using o1(1,2,3) st len a b by auto
qed

lemma contiguous_sum:
  "out \<noteq> [] \<Longrightarrow>
   \<forall>k. k + 1 < length out \<longrightarrow> grp_start (out ! (k + 1)) = grp_start (out ! k) + grp_count (out ! k) \<Longrightarrow>
   grp_start (out ! 0) + sum_list (map grp_count out) = grp_start (last out) + grp_count (last out)"
proof (induction out)
  case Nil
  then show ?case by simp
next
  case (Cons x xs)
  show ?case
  proof (cases "xs = []")
    case True
    then show ?thesis by simp
  next
    case False
    have c: "\<forall>k. k + 1 < length xs \<longrightarrow>
               grp_start (xs ! (k + 1)) = grp_start (xs ! k) + grp_count (xs ! k)"
    proof (intro allI impI)
      fix k assume "k + 1 < length xs"
      then have "Suc k + 1 < length (x # xs)" by simp
      with Cons.prems(2) have "grp_start ((x # xs) ! (Suc k + 1)) =
          grp_start ((x # xs) ! Suc k) + grp_count ((x # xs) ! Suc k)" by blast
      then show "grp_start (xs ! (k + 1)) = grp_start (xs ! k) + grp_count (xs ! k)" by simp
    qed
    have "0 + 1 < length (x # xs)" using False by (cases xs) simp_all
    with Cons.prems(2) have "grp_start ((x # xs) ! (0 + 1)) =
        grp_start ((x # xs) ! 0) + grp_count ((x # xs) ! 0)" by blast
    then have h: "grp_start (xs ! 0) = grp_start x + grp_count x" by simp
    from Cons.IH[OF False c] h show ?thesis using False by simp
  qed
qed



lemma count_count_update:
  "a < length out \<Longrightarrow>
   grp_count (out[a := (out ! a)\<lparr> grp_count := r \<rparr>] ! k) = (if k = a then r else grp_count (out ! k))"
  by simp

text \<open>
  Claim C8. For a non-empty sequence of \<open>n\<close> sizes and a group count \<open>g\<close> with
  \<open>1 \<le> g \<le> n\<close>, \<open>GenSortedRunGroup\<close> returns (every vector access is in range) and
  leaves \<open>g\<close> groups whose counts sum to \<open>n\<close>, the first of which starts at index 0 and
  each of which starts where the previous one ends. This holds for every behaviour of
  the floating-point operations and for every previous content of the output vector.
\<close>

theorem GenSortedRunGroup_partition:
  assumes ne: "sr \<noteq> []" and g1: "1 \<le> n_group" and gn: "n_group \<le> length sr"
  shows "\<exists>q out. GenSortedRunGroup ops sr n_group out0 = Some (q, out) \<and>
           length out = n_group \<and>
           sum_list (map grp_count out) = length sr \<and>
           grp_start (out ! 0) = 0 \<and>
           (\<forall>k. k + 1 < n_group \<longrightarrow>
                grp_start (out ! (k + 1)) = grp_start (out ! k) + grp_count (out ! k))"
proof -
  define d where "d = length sr - n_group"
  define outr where "outr = resize_groups ops out0 n_group"
  define ret_q where "ret_q = Q ops sr n_group"
  have lenr: "length outr = n_group" by (simp add: outr_def resize_groups_def)
  have n: "length sr = n_group + d" using gn by (simp add: d_def)
  have "\<exists>sr_sz g q out1.
          refine_groups ops sr (n_group - 1) (length sr) n_group ret_q outr = Some (sr_sz, g, q, out1) \<and>
          1 \<le> g \<and> g \<le> n_group \<and> sr_sz = g + d \<and> length out1 = length outr \<and>
          (\<forall>k. g \<le> k \<and> k < length outr \<longrightarrow>
               grp_start (out1 ! k) = k + d \<and> grp_count (out1 ! k) = 1)"
    using g1 lenr n by (intro refine_groups_result) simp_all
  then obtain sr_sz g q out1 where
    rf: "refine_groups ops sr (n_group - 1) (length sr) n_group ret_q outr = Some (sr_sz, g, q, out1)"
    and gpos: "1 \<le> g" and gle: "g \<le> n_group" and sz: "sr_sz = g + d"
    and len1: "length out1 = n_group"
    and tail1: "\<forall>k. g \<le> k \<and> k < n_group \<longrightarrow> grp_start (out1 ! k) = k + d \<and> grp_count (out1 ! k) = 1"
    using lenr by auto
  define out2 where "out2 = out1[g - 1 := (out1 ! (g - 1))\<lparr> grp_ratio := sr ! (sr_sz - 1) \<rparr>]"
  define out3 where "out3 = out2[0 := (out2 ! 0)\<lparr> grp_start := 0 \<rparr>]"
  have len3: "length out3 = n_group" by (simp add: out3_def out2_def len1)
  have szle: "sr_sz \<le> length sr" using sz gle n by simp
  have st30: "grp_start (out3 ! 0) = 0"
    unfolding out3_def using len1 g1 by (simp add: out2_def)
  have "\<exists>out4. sweep_groups ops sr q (sr_sz - 1) (sr ! (sr_sz - 1)) (d_pow ops q (d_of_nat ops g))
                  (g - 1) out3 = Some out4 \<and>
      length out4 = length out3 \<and> grp_start (out4 ! 0) = 0 \<and>
      (\<forall>k. 0 < k \<and> k < g \<longrightarrow> 0 < grp_start (out4 ! k) \<and> grp_start (out4 ! k) < sr_sz) \<and>
      (\<forall>k. 0 < k \<and> k + 1 < g \<longrightarrow> grp_start (out4 ! k) < grp_start (out4 ! (k + 1))) \<and>
      (\<forall>k. g \<le> k \<longrightarrow> out4 ! k = out3 ! k)"
    using gpos gle sz szle len3 st30 by (intro sweep_groups_result) auto
  then obtain out4 where
    sw: "sweep_groups ops sr q (sr_sz - 1) (sr ! (sr_sz - 1)) (d_pow ops q (d_of_nat ops g))
           (g - 1) out3 = Some out4"
    and len4: "length out4 = n_group" and st40: "grp_start (out4 ! 0) = 0"
    and rng4: "\<forall>k. 0 < k \<and> k < g \<longrightarrow> 0 < grp_start (out4 ! k) \<and> grp_start (out4 ! k) < sr_sz"
    and inc4: "\<forall>k. 0 < k \<and> k + 1 < g \<longrightarrow> grp_start (out4 ! k) < grp_start (out4 ! (k + 1))"
    and same4: "\<forall>k. g \<le> k \<longrightarrow> out4 ! k = out3 ! k"
    using len3 by auto
  have tail4: "grp_start (out4 ! k) = k + d \<and> grp_count (out4 ! k) = 1" if "g \<le> k" "k < n_group" for k
  proof -
    have k: "g - 1 \<noteq> k" "0 \<noteq> k" using that gpos by simp_all
    have "out4 ! k = out3 ! k" using same4 that by simp
    also have "\<dots> = out2 ! k" unfolding out3_def by (rule nth_list_update_neq[OF k(2)])
    also have "\<dots> = out1 ! k" unfolding out2_def by (rule nth_list_update_neq[OF k(1)])
    finally show ?thesis using tail1 that by simp
  qed
  have "\<exists>out5. set_counts g 1 out4 = Some out5 \<and> length out5 = length out4 \<and>
     (\<forall>k. grp_start (out5 ! k) = grp_start (out4 ! k)) \<and>
     (\<forall>k. 1 \<le> k + 1 \<and> k + 1 < g \<longrightarrow>
          grp_count (out5 ! k) = grp_start (out4 ! (k + 1)) - grp_start (out4 ! k)) \<and>
     (\<forall>k. k + 1 < 1 \<or> g \<le> k + 1 \<longrightarrow> grp_count (out5 ! k) = grp_count (out4 ! k))"
    using gpos gle len4 by (intro set_counts_result) simp_all
  then obtain out5 where
    sc: "set_counts g 1 out4 = Some out5" and len5: "length out5 = n_group"
    and st5: "\<forall>k. grp_start (out5 ! k) = grp_start (out4 ! k)"
    and cn5: "\<forall>k. k + 1 < g \<longrightarrow>
          grp_count (out5 ! k) = grp_start (out4 ! (k + 1)) - grp_start (out4 ! k)"
    and cn5': "\<forall>k. g \<le> k + 1 \<longrightarrow> grp_count (out5 ! k) = grp_count (out4 ! k)"
    using len4 by auto
  define out6 where "out6 = out5[g - 1 := (out5 ! (g - 1))\<lparr> grp_count :=
                                             sr_sz - grp_start (out5 ! (g - 1)) \<rparr>]"
  have last_lt: "grp_start (out4 ! (g - 1)) < sr_sz"
  proof (cases "g = 1")
    case True
    then show ?thesis using st40 sz by simp
  next
    case False
    then have "0 < g - 1 \<and> g - 1 < g" using gpos by simp
    then show ?thesis using rng4 by blast
  qed
  have chk: "\<not> (sr_sz = 0 \<or> length sr < sr_sz \<or> g = 0 \<or> length out1 < g)"
    using gpos gle sz szle len1 by simp
  have res: "GenSortedRunGroup ops sr n_group out0 = Some (ret_q, out6)"
    using g1 rf chk sw sc
    unfolding out6_def out3_def out2_def outr_def ret_q_def
    by (simp add: GenSortedRunGroup_def Let_def)
  have len6: "length out6 = n_group" by (simp add: out6_def len5)
  have gl5: "g - 1 < length out5" using gpos gle len5 by simp
  have st6: "grp_start (out6 ! k) = grp_start (out4 ! k)" for k
    unfolding out6_def using st5 by (simp only: start_count_update)
  have cn6: "grp_count (out6 ! k) =
      (if k = g - 1 then sr_sz - grp_start (out4 ! (g - 1)) else grp_count (out5 ! k))" for k
    unfolding out6_def using gl5 st5 by (simp only: count_count_update)
  have mono: "grp_start (out4 ! k) < grp_start (out4 ! (k + 1))" if "k + 1 < g" for k
  proof (cases "k = 0")
    case True
    then have "0 < k + 1 \<and> k + 1 < g" using that by simp
    from rng4[rule_format, OF this] have "0 < grp_start (out4 ! (k + 1))" by (rule conjunct1)
    then show ?thesis using True st40 by simp
  next
    case False
    then have "0 < k \<and> k + 1 < g" using that by simp
    with inc4 show ?thesis by blast
  qed
  have contig: "grp_start (out6 ! (k + 1)) = grp_start (out6 ! k) + grp_count (out6 ! k)"
    if "k + 1 < n_group" for k
  proof -
    consider "k + 1 < g" | "k + 1 = g" | "g \<le> k" by arith
    then show ?thesis
    proof cases
      case 1
      then have "k \<noteq> g - 1" by simp
      then have "grp_count (out6 ! k) = grp_start (out4 ! (k + 1)) - grp_start (out4 ! k)"
        using cn6[of k] cn5 1 by simp
      then show ?thesis using mono[OF 1] st6 by simp
    next
      case 2
      then have k: "k = g - 1" by simp
      have "grp_start (out4 ! g) = g + d" using tail4[of g] that 2 by simp
      then show ?thesis using k 2 cn6[of k] st6 last_lt sz by simp
    next
      case 3
      then have "k \<noteq> g - 1" using gpos by simp
      moreover have "g \<le> k + 1" using 3 by simp
      ultimately have "grp_count (out6 ! k) = grp_count (out4 ! k)"
        using cn6[of k] cn5' by simp
      then show ?thesis using tail4[of k] tail4[of "k + 1"] 3 that st6 by simp
    qed
  qed
  have ne6: "out6 \<noteq> []" using len6 g1 by auto
  have lastv: "grp_start (last out6) + grp_count (last out6) = length sr"
  proof -
    have l: "last out6 = out6 ! (n_group - 1)" using ne6 len6 by (simp add: last_conv_nth)
    show ?thesis
    proof (cases "g = n_group")
      case True
      then show ?thesis using l cn6[of "n_group - 1"] st6 last_lt sz n by simp
    next
      case False
      then have a: "g \<le> n_group - 1" "n_group - 1 < n_group" "n_group - 1 \<noteq> g - 1"
        using gle gpos by simp_all
      then have "grp_count (out6 ! (n_group - 1)) = grp_count (out4 ! (n_group - 1))"
        using cn6[of "n_group - 1"] cn5' by simp
      then show ?thesis using l tail4[OF a(1,2)] st6 n g1 by simp
    qed
  qed
  have "\<forall>k. k + 1 < length out6 \<longrightarrow>
          grp_start (out6 ! (k + 1)) = grp_start (out6 ! k) + grp_count (out6 ! k)"
    unfolding len6 using contig by blast
  then have "grp_start (out6 ! 0) + sum_list (map grp_count out6) =
        grp_start (last out6) + grp_count (last out6)"
    by (rule contiguous_sum[OF ne6])
  then have total: "sum_list (map grp_count out6) = length sr"
    using lastv st6[of 0] st40 by simp
  have s0: "grp_start (out6 ! 0) = 0" using st6[of 0] st40 by simp
  show ?thesis
  proof (intro exI conjI allI impI)
    show "GenSortedRunGroup ops sr n_group out0 = Some (ret_q, out6)" by (rule res)
    show "length out6 = n_group" by (rule len6)
    show "sum_list (map grp_count out6) = length sr" by (rule total)
    show "grp_start (out6 ! 0) = 0" by (rule s0)
    show "grp_start (out6 ! (k + 1)) = grp_start (out6 ! k) + grp_count (out6 ! k)"
      if "k + 1 < n_group" for k by (rule contig[OF that])
  qed
qed

theorem GenSortedRunGroup_partition_witness:
  "[1, 1, 1 :: real] \<noteq> [] \<and> (1 :: nat) \<le> 2 \<and> (2 :: nat) \<le> length [1, 1, 1 :: real] \<and>
   (\<exists>q out. GenSortedRunGroup real_ops [1, 1, 1] 2 [] = Some (q, out) \<and>
            length out = 2 \<and>
            sum_list (map grp_count out) = length [1, 1, 1 :: real] \<and>
            grp_start (out ! 0) = 0 \<and>
            (\<forall>k. k + 1 < 2 \<longrightarrow>
                 grp_start (out ! (k + 1)) = grp_start (out ! k) + grp_count (out ! k)))"
  using GenSortedRunGroup_partition [of "[1, 1, 1 :: real]" 2 real_ops "[]"] by simp

subsection \<open>The top-level selector\<close>

text \<open>
  Claim C1 on the code. A single-level engine whose level 0 holds, newest first, a file
  marked for compaction and two files that are inputs of a compaction in flight: the
  number of sorted runs is below the trigger, so only the delete-triggered strategy is
  consulted; \<open>PickCompaction\<close> returns a plan whose inputs are all three files, two of
  which have \<open>being_compacted = true\<close> at the time of the call.
\<close>

theorem PickCompaction_picks_file_being_compacted:
  "\<exists>c st1. PickCompaction 1 real_ops ex_collaborators ex_options ex_state
              (ex_vstorage ex_l0_marked_then_compacted) = Some (Some c, st1) \<and>
           inputs c = [\<lparr> level = 0, files = ex_l0_marked_then_compacted \<rparr>] \<and>
           compaction_reason c = kFilesMarkedForCompaction \<and>
           list_ex being_compacted (concat (map files (inputs c)))"
  by (simp add: PickCompaction_def CalculateSortedRuns_def pick_by_strategies_def
        PickDeleteTriggeredCompaction_def delete_triggered_inputs_def set_trivial_move_def
        ex_l0_marked_then_compacted_def ex_vstorage_def ex_file_def ex_options_def
        num_levels_def LevelFiles_def has_space_amplification_def GetPathId_def
        GetPathId_loop.simps Let_def)

text \<open>
  Claim C10. Whenever \<open>PickCompaction\<close> returns, the picker state after the call is the
  state before it if no plan is returned, and the state before it with the returned plan
  registered otherwise: both \<^verbatim>\<open>compactions_in_progress_\<close> and
  \<^verbatim>\<open>level0_compactions_in_progress_\<close> change only on the path that returns a plan.
\<close>

theorem PickCompaction_registers_only_returned_plan:
  "PickCompaction fuel ops ext opts st vstorage = Some (r, st1) \<Longrightarrow>
     (r = None \<longrightarrow> st1 = st) \<and> (\<forall>c. r = Some c \<longrightarrow> st1 = RegisterCompaction st c)"
  by (auto simp: PickCompaction_def Let_def split: option.splits if_splits)

theorem PickCompaction_registers_only_returned_plan_witness:
  "PickCompaction 1 real_ops ex_collaborators ex_options ex_state (ex_vstorage []) =
     Some (None, ex_state) \<and>
   compactions_in_progress ex_state = [] \<and> level0_compactions_in_progress ex_state = []"
proof -
  have h: "PickCompaction 1 real_ops ex_collaborators ex_options ex_state (ex_vstorage []) =
     Some (None, ex_state)"
    by (simp add: PickCompaction_def CalculateSortedRuns_def ex_vstorage_def
          num_levels_def LevelFiles_def)
  from PickCompaction_registers_only_returned_plan [OF h] h
  show ?thesis by (simp add: ex_state_def)
qed

subsection \<open>Iterator failure\<close>





























end
